theory Spec2Isabelle
  imports Main "HOL-Library.Product_Lexorder" "HOL-Library.AList"
begin

section \<open>Python values and exceptions\<close>

text \<open>
  The module \<^verbatim>\<open>tmpacc/TemporalAccumulator.py\<close> works on naive \<^verbatim>\<open>datetime\<close> objects,
  strings and plain lists. Exceptions are values of the type \<open>error\<close>; a computation that
  may raise returns \<open>error + 'a\<close> with \<open>Inl\<close> for the exception.

  Three of the constructors stand for a Python \<^verbatim>\<open>ValueError\<close>, told apart by where it is
  raised: \<open>UnsupportedUnit\<close> at line 55 (\<^verbatim>\<open>Interval.next\<close>), \<open>InvalidDateFormat\<close> at
  line 149 (\<^verbatim>\<open>Calendar.fromstr\<close>), and \<open>DateValueError\<close> inside the \<^verbatim>\<open>datetime\<close>
  library (a field out of range, a string it cannot parse).
\<close>

datatype error =
    UnsupportedUnit
  | InvalidDateFormat
  | DateValueError
  | OverflowError
  | IndexError
  | KeyError
  | TypeError

definition is_ValueError :: "error \<Rightarrow> bool" where
  "is_ValueError e = (e = UnsupportedUnit \<or> e = InvalidDateFormat \<or> e = DateValueError)"

section \<open>The datetime library\<close>

text \<open>
  A naive \<^verbatim>\<open>datetime\<close> is its seven fields. Python keeps them in range by construction;
  here \<open>valid_datetime\<close> says so (\<^verbatim>\<open>_check_date_fields\<close> and \<^verbatim>\<open>_check_time_fields\<close>).
\<close>

record datetime =
  year :: int
  month :: int
  day :: int
  hour :: int
  minute :: int
  second :: int
  microsecond :: int

definition is_leap :: "int \<Rightarrow> bool" where
  "is_leap y = (y mod 4 = 0 \<and> (y mod 100 \<noteq> 0 \<or> y mod 400 = 0))"

definition DAYS_IN_MONTH :: "int list" where
  "DAYS_IN_MONTH = [31, 28, 31, 30, 31, 30, 31, 31, 30, 31, 30, 31]"

definition DAYS_BEFORE_MONTH :: "int list" where
  "DAYS_BEFORE_MONTH = [0, 31, 59, 90, 120, 151, 181, 212, 243, 273, 304, 334]"

definition days_in_month :: "int \<Rightarrow> int \<Rightarrow> int" where
  "days_in_month y m = (if m = 2 \<and> is_leap y then 29 else DAYS_IN_MONTH ! nat (m - 1))"

definition MINYEAR :: int where "MINYEAR = 1"
definition MAXYEAR :: int where "MAXYEAR = 9999"

definition valid_date :: "int \<Rightarrow> int \<Rightarrow> int \<Rightarrow> bool" where
  "valid_date y m d =
     (MINYEAR \<le> y \<and> y \<le> MAXYEAR \<and> 1 \<le> m \<and> m \<le> 12 \<and> 1 \<le> d \<and> d \<le> days_in_month y m)"

definition valid_time :: "int \<Rightarrow> int \<Rightarrow> int \<Rightarrow> int \<Rightarrow> bool" where
  "valid_time h mi s us =
     (0 \<le> h \<and> h \<le> 23 \<and> 0 \<le> mi \<and> mi \<le> 59 \<and> 0 \<le> s \<and> s \<le> 59 \<and> 0 \<le> us \<and> us \<le> 999999)"

definition valid_datetime :: "datetime \<Rightarrow> bool" where
  "valid_datetime d =
     (valid_date (year d) (month d) (day d) \<and>
      valid_time (hour d) (minute d) (second d) (microsecond d))"

text \<open>
  The constructor \<^verbatim>\<open>datetime(year, month, day, hour, minute, second, microsecond)\<close>:
  a \<^verbatim>\<open>ValueError\<close> when a field is out of range.
\<close>

definition mk_datetime :: "int \<Rightarrow> int \<Rightarrow> int \<Rightarrow> int \<Rightarrow> int \<Rightarrow> int \<Rightarrow> int \<Rightarrow> error + datetime" where
  "mk_datetime y m d h mi s us =
     (if valid_date y m d \<and> valid_time h mi s us
      then Inr \<lparr>year = y, month = m, day = d, hour = h, minute = mi, second = s, microsecond = us\<rparr>
      else Inl DateValueError)"

text \<open>
  \<^verbatim>\<open>datetime.replace(year=..., month=..., day=...)\<close>: the fields not given are kept, and
  the result goes through the constructor.
\<close>

definition replace :: "datetime \<Rightarrow> int option \<Rightarrow> int option \<Rightarrow> int option \<Rightarrow> error + datetime" where
  "replace self y m d =
     mk_datetime
       (case y of None \<Rightarrow> year self | Some v \<Rightarrow> v)
       (case m of None \<Rightarrow> month self | Some v \<Rightarrow> v)
       (case d of None \<Rightarrow> day self | Some v \<Rightarrow> v)
       (hour self) (minute self) (second self) (microsecond self)"

text \<open>
  Comparison of two naive datetimes is the lexicographic comparison of their fields.
\<close>

definition dt_key :: "datetime \<Rightarrow> int \<times> int \<times> int \<times> int \<times> int \<times> int \<times> int" where
  "dt_key d = (year d, month d, day d, hour d, minute d, second d, microsecond d)"

definition dt_le :: "datetime \<Rightarrow> datetime \<Rightarrow> bool" where
  "dt_le a b = (dt_key a \<le> dt_key b)"

definition dt_less :: "datetime \<Rightarrow> datetime \<Rightarrow> bool" where
  "dt_less a b = (dt_key a < dt_key b)"

subsection \<open>Ordinals\<close>

text \<open>
  \<^verbatim>\<open>datetime + timedelta\<close> goes through the proleptic Gregorian ordinal of the date
  (day 1 is 0001-01-01): \<^verbatim>\<open>_ymd2ord\<close> and \<^verbatim>\<open>_ord2ymd\<close> of CPython's
  \<^verbatim>\<open>Lib/_pydatetime.py\<close>, transcribed.
\<close>

definition days_before_year :: "int \<Rightarrow> int" where
  "days_before_year y = (let y1 = y - 1 in y1 * 365 + y1 div 4 - y1 div 100 + y1 div 400)"

definition days_before_month :: "int \<Rightarrow> int \<Rightarrow> int" where
  "days_before_month y m =
     DAYS_BEFORE_MONTH ! nat (m - 1) + (if m > 2 \<and> is_leap y then 1 else 0)"

definition ymd2ord :: "int \<Rightarrow> int \<Rightarrow> int \<Rightarrow> int" where
  "ymd2ord y m d = days_before_year y + days_before_month y m + d"

definition DI400Y :: int where "DI400Y = 146097"
definition DI100Y :: int where "DI100Y = 36524"
definition DI4Y :: int where "DI4Y = 1461"

definition ord2ymd :: "int \<Rightarrow> int \<times> int \<times> int" where
  "ord2ymd n0 =
     (let n = n0 - 1;
          n400 = n div DI400Y; n = n mod DI400Y;
          n100 = n div DI100Y; n = n mod DI100Y;
          n4 = n div DI4Y; n = n mod DI4Y;
          n1 = n div 365; n = n mod 365;
          y = n400 * 400 + 1 + n100 * 100 + n4 * 4 + n1
      in if n1 = 4 \<or> n100 = 4 then (y - 1, 12, 31)
         else
           let leapyear = (n1 = 3 \<and> (n4 \<noteq> 24 \<or> n100 = 3));
               m = (n + 50) div 32;
               preceding = DAYS_BEFORE_MONTH ! nat (m - 1) + (if m > 2 \<and> leapyear then 1 else 0)
           in if preceding > n
              then let m' = m - 1;
                       preceding' = preceding -
                         (DAYS_IN_MONTH ! nat (m' - 1) + (if m' = 2 \<and> leapyear then 1 else 0))
                   in (y, m', n - preceding' + 1)
              else (y, m, n - preceding + 1))"

definition MAXORDINAL :: int where "MAXORDINAL = 3652059"

definition toordinal :: "datetime \<Rightarrow> int" where
  "toordinal d = ymd2ord (year d) (month d) (day d)"

subsection \<open>Adding a timedelta\<close>

text \<open>
  A \<^verbatim>\<open>timedelta\<close> is a whole number of microseconds. \<^verbatim>\<open>datetime.__add__\<close> adds it to
  the ordinal and the time of day, splits the sum into days, hours, minutes, seconds and
  microseconds again, and raises \<^verbatim>\<open>OverflowError\<close> unless \<^verbatim>\<open>0 < days <= _MAXORDINAL\<close>.
  (A \<^verbatim>\<open>timedelta\<close> too large to be built is an \<^verbatim>\<open>OverflowError\<close> as well, and its sum
  would be out of range in any case.)
\<close>

definition US_PER_DAY :: int where "US_PER_DAY = 86400000000"

definition to_microseconds :: "datetime \<Rightarrow> int" where
  "to_microseconds d =
     (((toordinal d * 24 + hour d) * 60 + minute d) * 60 + second d) * 1000000 + microsecond d"

definition of_microseconds :: "int \<Rightarrow> datetime" where
  "of_microseconds t =
     (let days = t div US_PER_DAY;
          us_of_day = t mod US_PER_DAY;
          seconds = us_of_day div 1000000;
          (y, m, d) = ord2ymd days
      in \<lparr>year = y, month = m, day = d,
          hour = seconds div 3600, minute = (seconds mod 3600) div 60, second = seconds mod 60,
          microsecond = us_of_day mod 1000000\<rparr>)"

definition add_timedelta :: "datetime \<Rightarrow> int \<Rightarrow> error + datetime" where
  "add_timedelta d us =
     (let t = to_microseconds d + us; days = t div US_PER_DAY
      in if 0 < days \<and> days \<le> MAXORDINAL then Inr (of_microseconds t) else Inl OverflowError)"

section \<open>Interval\<close>

text \<open>
  The eight unit aliases of lines 8 to 15; \<open>OtherUnit\<close> is any other object stored in
  the \<^verbatim>\<open>unit\<close> field, for which \<^verbatim>\<open>Interval.next\<close> reaches its \<^verbatim>\<open>else\<close> branch.
\<close>

datatype TemporalBaseUnits =
    Milliseconds | Seconds | Minutes | Hours | Days | Weeks | Months | Years
  | OtherUnit string

record Interval =
  unit :: TemporalBaseUnits
  scalar :: int

text \<open>
  \<^verbatim>\<open>Interval.next\<close> (lines 25 to 55). The month table and its leap-year test are the
  ones written at lines 42 to 46; \<open>div\<close> and \<open>mod\<close> on \<open>int\<close> round down as Python's
  \<^verbatim>\<open>//\<close> and \<^verbatim>\<open>%\<close> do. The \<^verbatim>\<open>except ValueError\<close> of lines 51 to 53 catches whatever
  \<^verbatim>\<open>ValueError\<close> the first \<^verbatim>\<open>replace\<close> raised.
\<close>

definition Interval_next :: "Interval \<Rightarrow> datetime \<Rightarrow> error + datetime" where
  "Interval_next self from_date =
     (case unit self of
        Milliseconds \<Rightarrow> add_timedelta from_date (scalar self * 1000)
      | Seconds \<Rightarrow> add_timedelta from_date (scalar self * 1000000)
      | Minutes \<Rightarrow> add_timedelta from_date (scalar self * 60000000)
      | Hours \<Rightarrow> add_timedelta from_date (scalar self * 3600000000)
      | Days \<Rightarrow> add_timedelta from_date (scalar self * 86400000000)
      | Weeks \<Rightarrow> add_timedelta from_date (scalar self * 604800000000)
      | Months \<Rightarrow>
          (let month0 = month from_date - 1 + scalar self;
               year' = year from_date + month0 div 12;
               month' = month0 mod 12 + 1;
               day' = min (day from_date)
                        ([31,
                          if year' mod 4 = 0 \<and> \<not> year' mod 100 = 0 \<or> year' mod 400 = 0
                          then 29 else 28,
                          31, 30, 31, 30,
                          31, 31, 30, 31,
                          30, 31] ! nat (month' - 1))
           in replace from_date (Some year') (Some month') (Some day'))
      | Years \<Rightarrow>
          (case replace from_date (Some (year from_date + scalar self)) None None of
             Inr r \<Rightarrow> Inr r
           | Inl e \<Rightarrow>
               if is_ValueError e
               then replace from_date (Some (year from_date + scalar self)) (Some 2) (Some 28)
               else Inl e)
      | OtherUnit u \<Rightarrow> Inl UnsupportedUnit)"

section \<open>DataSeries\<close>

datatype Affinity = Categorical | Numerical | Temporal

datatype Aggregation = CumulativeSum | MovingAverage | LastValue | MaxValue | MinValue | Identity

text \<open>The values a series holds: \<^verbatim>\<open>List[Any]\<close>.\<close>

datatype pyval = PyNone | PyInt int | PyStr string | PyDatetime datetime

text \<open>
  A \<^verbatim>\<open>DataSeries\<close> object is its attributes. \<^verbatim>\<open>__init__\<close> (lines 77 to 79) assigns
  \<^verbatim>\<open>self.series\<close> and \<^verbatim>\<open>self.affinity\<close> and nothing else.
\<close>

record DataSeries =
  series :: "pyval list"
  affinity :: Affinity

definition DataSeries_init :: "pyval list \<Rightarrow> Affinity \<Rightarrow> Aggregation \<Rightarrow> DataSeries" where
  "DataSeries_init series_arg affinity_arg aggregation_arg =
     \<lparr>series = series_arg, affinity = affinity_arg\<rparr>"

section \<open>Calendar\<close>

subsection \<open>Parsing a date string\<close>

text \<open>
  The two regular expressions of \<^verbatim>\<open>Calendar.fromstr\<close> (lines 144 and 146) are sequences
  of \<^verbatim>\<open>\d\<close> and literal characters between \<^verbatim>\<open>^\<close> and \<^verbatim>\<open>$\<close>. A string is a list
  of characters with code points below 256, among which \<^verbatim>\<open>\d\<close> matches the ten ASCII
  digits only. Without the \<^verbatim>\<open>MULTILINE\<close> flag, \<^verbatim>\<open>$\<close> matches at the end of the string
  and also just before a newline that ends the string.
\<close>

datatype pat = Digit | Lit char

definition is_digit :: "char \<Rightarrow> bool" where
  "is_digit c = (c \<in> set ''0123456789'')"

fun match_prefix :: "pat list \<Rightarrow> string \<Rightarrow> string option" where
  "match_prefix [] s = Some s"
| "match_prefix (p # ps) [] = None"
| "match_prefix (Digit # ps) (c # cs) = (if is_digit c then match_prefix ps cs else None)"
| "match_prefix (Lit l # ps) (c # cs) = (if c = l then match_prefix ps cs else None)"

definition at_end :: "string \<Rightarrow> bool" where
  "at_end rest = (rest = [] \<or> rest = [CHR 0x0A])"

definition re_match :: "pat list \<Rightarrow> string \<Rightarrow> bool" where
  "re_match ps s = (case match_prefix ps s of None \<Rightarrow> False | Some rest \<Rightarrow> at_end rest)"

definition DATE_PATTERN :: "pat list" where
  "DATE_PATTERN =
     [Digit, Digit, Digit, Digit, Lit CHR ''-'', Digit, Digit, Lit CHR ''-'', Digit, Digit]"

definition DATETIME_PATTERN :: "pat list" where
  "DATETIME_PATTERN =
     DATE_PATTERN @
     [Lit CHR ''T'', Digit, Digit, Lit CHR '':'', Digit, Digit, Lit CHR '':'', Digit, Digit]"

definition digit_val :: "char \<Rightarrow> int" where
  "digit_val c = int (of_char c) - 48"

definition digits_val :: "string \<Rightarrow> int" where
  "digits_val s = foldl (\<lambda>acc c. acc * 10 + digit_val c) 0 s"

text \<open>
  \<^verbatim>\<open>datetime.fromisoformat\<close> (Python 3.12, the first release that accepts the
  \<^verbatim>\<open>type\<close> statements of lines 8 to 18) on the strings \<^verbatim>\<open>fromstr\<close> hands to it. A string
  \<^verbatim>\<open>YYYY-MM-DDTHH:MM:SS\<close> of ASCII digits is split into its six numbers, which go
  through the constructor. The library reads other ISO 8601 layouts too, but behind the two
  regular expressions the only other strings that reach it carry a newline, after the date
  or at the very end, and those it rejects.
\<close>

definition fromisoformat :: "string \<Rightarrow> error + datetime" where
  "fromisoformat s =
     (if match_prefix DATETIME_PATTERN s = Some []
      then mk_datetime
             (digits_val (take 4 s))
             (digits_val (take 2 (drop 5 s)))
             (digits_val (take 2 (drop 8 s)))
             (digits_val (take 2 (drop 11 s)))
             (digits_val (take 2 (drop 14 s)))
             (digits_val (take 2 (drop 17 s)))
             0
      else Inl DateValueError)"

text \<open>\<^verbatim>\<open>Calendar.fromstr\<close> (lines 143 to 150).\<close>

definition fromstr :: "string \<Rightarrow> error + datetime" where
  "fromstr date_str =
     (if re_match DATE_PATTERN date_str then fromisoformat (date_str @ ''T00:00:00'')
      else if re_match DATETIME_PATTERN date_str then fromisoformat date_str
      else Inl InvalidDateFormat)"

subsection \<open>Facts about ordinals\<close>

text \<open>
  The loop of \<^verbatim>\<open>generate_dates\<close> stops because each pass moves the current date one
  ordinal up and no date lies beyond \<^verbatim>\<open>_MAXORDINAL\<close>. That needs \<^verbatim>\<open>_ord2ymd\<close> to invert
  \<^verbatim>\<open>_ymd2ord\<close>; the same facts give that adding a timedelta keeps the order of dates.
\<close>

text \<open>
  Two pieces named on their own: the end of \<^verbatim>\<open>_ord2ymd\<close>, from the day of the year and
  the leap flag to month and day, and the time of day in microseconds.
\<close>

definition month_day :: "int \<Rightarrow> bool \<Rightarrow> int \<times> int" where
  "month_day n leapyear =
     (let m = (n + 50) div 32;
          preceding = DAYS_BEFORE_MONTH ! nat (m - 1) + (if m > 2 \<and> leapyear then 1 else 0)
      in if preceding > n
         then let m' = m - 1;
                  preceding' = preceding -
                    (DAYS_IN_MONTH ! nat (m' - 1) + (if m' = 2 \<and> leapyear then 1 else 0))
              in (m', n - preceding' + 1)
         else (m, n - preceding + 1))"

definition time_us :: "datetime \<Rightarrow> int" where
  "time_us d = ((hour d * 60 + minute d) * 60 + second d) * 1000000 + microsecond d"

lemma mod_zero_iff_top:
  fixes x k :: int
  assumes "0 < x" "x \<le> k"
  shows "(x mod k = 0) = (x = k)"
proof (cases "x = k")
  case True
  then show ?thesis by simp
next
  case False
  with assms have "x < k" by simp
  with assms have "x mod k = x" by (simp add: mod_pos_pos_trivial)
  with assms False show ?thesis by simp
qed

lemma dby_decomp:
  assumes "0 \<le> b" "b \<le> 3" "0 \<le> c" "c \<le> 24" "0 \<le> e" "e \<le> 3"
  shows "days_before_year (400 * a + 100 * b + 4 * c + e + 1) = 146097 * a + 36524 * b + 1461 * c + 365 * e"
proof -
  let ?y1 = "400 * a + 100 * b + 4 * c + e"
  have "?y1 = e + (100 * a + 25 * b + c) * 4" by simp
  then have "?y1 div 4 = (100 * a + 25 * b + c) + e div 4"
    by (metis div_mult_self1 zero_neq_numeral)
  then have d4: "?y1 div 4 = 100 * a + 25 * b + c" using assms by simp
  have "?y1 = (4 * c + e) + (4 * a + b) * 100" by simp
  then have "?y1 div 100 = (4 * a + b) + (4 * c + e) div 100"
    by (metis div_mult_self1 zero_neq_numeral)
  then have d100: "?y1 div 100 = 4 * a + b" using assms by simp
  have "?y1 = (100 * b + 4 * c + e) + a * 400" by simp
  then have "?y1 div 400 = a + (100 * b + 4 * c + e) div 400"
    by (metis div_mult_self1 zero_neq_numeral)
  then have d400: "?y1 div 400 = a" using assms by simp
  show ?thesis unfolding days_before_year_def Let_def using d4 d100 d400 by simp
qed

lemma leap_decomp:
  assumes "0 \<le> b" "b \<le> 3" "0 \<le> c" "c \<le> 24" "0 \<le> e" "e \<le> 3"
  shows "is_leap (400 * a + 100 * b + 4 * c + e + 1) = (e = 3 \<and> (c \<noteq> 24 \<or> b = 3))"
proof -
  let ?y = "400 * a + 100 * b + 4 * c + e + 1"
  have "?y = (e + 1) + (100 * a + 25 * b + c) * 4" by simp
  then have "?y mod 4 = (e + 1) mod 4" by (metis mod_mult_self1)
  moreover have "((e + 1) mod 4 = 0) = (e + 1 = 4)"
    using assms by (intro mod_zero_iff_top) auto
  ultimately have m4: "?y mod 4 = 0 \<longleftrightarrow> e = 3" by auto
  have "?y = (4 * c + e + 1) + (4 * a + b) * 100" by simp
  then have "?y mod 100 = (4 * c + e + 1) mod 100" by (metis mod_mult_self1)
  moreover have "((4 * c + e + 1) mod 100 = 0) = (4 * c + e + 1 = 100)"
    using assms by (intro mod_zero_iff_top) auto
  moreover have "(4 * c + e + 1 = 100) = (c = 24 \<and> e = 3)" using assms by arith
  ultimately have m100: "?y mod 100 = 0 \<longleftrightarrow> (c = 24 \<and> e = 3)" by simp
  have "?y = (100 * b + 4 * c + e + 1) + a * 400" by simp
  then have "?y mod 400 = (100 * b + 4 * c + e + 1) mod 400" by (metis mod_mult_self1)
  moreover have "((100 * b + 4 * c + e + 1) mod 400 = 0) = (100 * b + 4 * c + e + 1 = 400)"
    using assms by (intro mod_zero_iff_top) auto
  moreover have "(100 * b + 4 * c + e + 1 = 400) = (b = 3 \<and> c = 24 \<and> e = 3)" using assms by arith
  ultimately have m400: "?y mod 400 = 0 \<longleftrightarrow> (b = 3 \<and> c = 24 \<and> e = 3)" by simp
  show ?thesis unfolding is_leap_def m4 m100 m400 by auto
qed

lemma month_day_correct:
  assumes "0 \<le> n" "n < (if leapyear then 366 else 365)"
  shows "case month_day n leapyear of (m, d) \<Rightarrow>
           1 \<le> m \<and> m \<le> 12 \<and> 1 \<le> d \<and>
           d \<le> (if m = 2 \<and> leapyear then 29 else DAYS_IN_MONTH ! nat (m - 1)) \<and>
           DAYS_BEFORE_MONTH ! nat (m - 1) + (if m > 2 \<and> leapyear then 1 else 0) + d = n + 1"
proof -
  define m0 where "m0 = (n + 50) div 32"
  have "n + 50 = 32 * m0 + (n + 50) mod 32" unfolding m0_def by simp
  moreover have "0 \<le> (n + 50) mod 32" "(n + 50) mod 32 < 32" by simp_all
  ultimately have lo: "32 * m0 \<le> n + 50" and hi: "n + 50 < 32 * m0 + 32" by linarith+
  from lo hi assms have "1 \<le> m0 \<and> m0 \<le> 12" by (auto split: if_splits)
  then have "m0 = 1 \<or> m0 = 2 \<or> m0 = 3 \<or> m0 = 4 \<or> m0 = 5 \<or> m0 = 6
    \<or> m0 = 7 \<or> m0 = 8 \<or> m0 = 9 \<or> m0 = 10 \<or> m0 = 11 \<or> m0 = 12" by arith
  then consider "m0 = 1" | "m0 = 2" | "m0 = 3" | "m0 = 4" | "m0 = 5" | "m0 = 6"
    | "m0 = 7" | "m0 = 8" | "m0 = 9" | "m0 = 10" | "m0 = 11" | "m0 = 12" by blast
  then show ?thesis
  proof cases
    case 1
    with lo hi assms show ?thesis
      unfolding month_day_def m0_def[symmetric] Let_def DAYS_BEFORE_MONTH_def DAYS_IN_MONTH_def
      by (auto split: if_splits)
  qed (use lo hi assms in \<open>auto simp: month_day_def m0_def[symmetric] Let_def DAYS_BEFORE_MONTH_def DAYS_IN_MONTH_def split: if_splits\<close>)
qed

lemma ord2ymd_correct:
  assumes "1 \<le> n0"
  shows "case ord2ymd n0 of (y, m, d) \<Rightarrow>
           1 \<le> y \<and> 1 \<le> m \<and> m \<le> 12 \<and> 1 \<le> d \<and> d \<le> days_in_month y m \<and> ymd2ord y m d = n0"
proof -
  define n where "n = n0 - 1"
  define a where "a = n div 146097"
  define r1 where "r1 = n mod 146097"
  define b where "b = r1 div 36524"
  define r2 where "r2 = r1 mod 36524"
  define c where "c = r2 div 1461"
  define r3 where "r3 = r2 mod 1461"
  define e where "e = r3 div 365"
  define r where "r = r3 mod 365"
  define y0 where "y0 = a * 400 + 1 + b * 100 + c * 4 + e"
  define y where "y = 400 * a + 100 * b + 4 * c + e + 1"
  have y0: "y0 = y" unfolding y0_def y_def by simp
  have n: "n = 146097 * a + r1" "0 \<le> r1" "r1 < 146097"
    unfolding a_def r1_def by simp_all
  have r1: "r1 = 36524 * b + r2" "0 \<le> r2" "r2 < 36524"
    unfolding b_def r2_def by simp_all
  have r2: "r2 = 1461 * c + r3" "0 \<le> r3" "r3 < 1461"
    unfolding c_def r3_def by simp_all
  have r3: "r3 = 365 * e + r" "0 \<le> r" "r < 365"
    unfolding e_def r_def by simp_all
  have a0: "0 \<le> a" using assms unfolding a_def n_def by (simp add: pos_imp_zdiv_nonneg_iff)
  have b0: "0 \<le> b" "b \<le> 4" using n r1 by linarith+
  have c0: "0 \<le> c" "c \<le> 24" using r1 r2 by linarith+
  have e0: "0 \<le> e" "e \<le> 4" using r2 r3 by linarith+
  have "ord2ymd n0 = (if e = 4 \<or> b = 4 then (y0 - 1, 12, 31)
         else (case month_day r (e = 3 \<and> (c \<noteq> 24 \<or> b = 3)) of (m, d) \<Rightarrow> (y0, m, d)))"
    unfolding ord2ymd_def Let_def DI400Y_def DI100Y_def DI4Y_def
      n_def[symmetric] a_def[symmetric] r1_def[symmetric] b_def[symmetric] r2_def[symmetric]
      c_def[symmetric] r3_def[symmetric] e_def[symmetric] r_def[symmetric] y0_def[symmetric]
    by (simp add: month_day_def Let_def)
  then have unf: "ord2ymd n0 = (if e = 4 \<or> b = 4 then (y - 1, 12, 31)
         else (case month_day r (e = 3 \<and> (c \<noteq> 24 \<or> b = 3)) of (m, d) \<Rightarrow> (y, m, d)))"
    unfolding y0 .
  have n0: "n0 = 146097 * a + 36524 * b + 1461 * c + 365 * e + r + 1"
    using n r1 r2 r3 unfolding n_def by linarith
  show ?thesis
  proof (cases "b = 4")
    case True
    with n r1 r2 r3 c0 e0 have z: "c = 0" "e = 0" "r = 0" by linarith+
    have "y - 1 = 400 * a + 100 * 3 + 4 * 24 + 3 + 1" unfolding y_def using True z by simp
    moreover have "days_before_year (400 * a + 100 * 3 + 4 * 24 + 3 + 1) = 146097 * a + 36524 * 3 + 1461 * 24 + 365 * 3"
      by (rule dby_decomp) simp_all
    moreover have "is_leap (400 * a + 100 * 3 + 4 * 24 + 3 + 1) = ((3::int) = 3 \<and> ((24::int) \<noteq> 24 \<or> (3::int) = 3))"
      by (rule leap_decomp) simp_all
    ultimately have "days_before_year (y - 1) = 146097 * a + 145731" "is_leap (y - 1)" by simp_all
    then have "ymd2ord (y - 1) 12 31 = n0" "days_in_month (y - 1) 12 = 31"
      unfolding ymd2ord_def days_before_month_def days_in_month_def DAYS_BEFORE_MONTH_def DAYS_IN_MONTH_def n0
      using True z by simp_all
    moreover have "1 \<le> y - 1" unfolding y_def using a0 b0 c0 e0 True by linarith
    ultimately show ?thesis unfolding unf using True by simp
  next
    case b4: False
    with b0 have b3: "b \<le> 3" by simp
    show ?thesis
    proof (cases "e = 4")
      case True
      with r2 r3 r1 c0 have z: "r = 0" "c \<le> 23" by linarith+
      have "y - 1 = 400 * a + 100 * b + 4 * c + 3 + 1" unfolding y_def using True by simp
      moreover have "days_before_year (400 * a + 100 * b + 4 * c + 3 + 1) = 146097 * a + 36524 * b + 1461 * c + 365 * 3"
        using b0 b3 c0 by (intro dby_decomp) simp_all
      moreover have "is_leap (400 * a + 100 * b + 4 * c + 3 + 1) = ((3::int) = 3 \<and> (c \<noteq> 24 \<or> b = 3))"
        using b0 b3 c0 by (intro leap_decomp) simp_all
      ultimately have "days_before_year (y - 1) = 146097 * a + 36524 * b + 1461 * c + 1095" "is_leap (y - 1)"
        using z by simp_all
      then have "ymd2ord (y - 1) 12 31 = n0" "days_in_month (y - 1) 12 = 31"
        unfolding ymd2ord_def days_before_month_def days_in_month_def DAYS_BEFORE_MONTH_def DAYS_IN_MONTH_def n0
        using True z by simp_all
      moreover have "1 \<le> y - 1" unfolding y_def using a0 b0 c0 e0 True by linarith
      ultimately show ?thesis unfolding unf using True by simp
    next
      case False
      with e0 have e3: "e \<le> 3" by simp
      define lp where "lp = (e = 3 \<and> (c \<noteq> 24 \<or> b = 3))"
      have dby: "days_before_year y = 146097 * a + 36524 * b + 1461 * c + 365 * e"
        unfolding y_def using b0 b3 c0 e0 e3 by (intro dby_decomp) simp_all
      have lp: "is_leap y = lp"
        unfolding y_def lp_def using b0 b3 c0 e0 e3 by (intro leap_decomp) simp_all
      obtain m d where md: "month_day r lp = (m, d)" by (cases "month_day r lp") auto
      have "case month_day r lp of (m, d) \<Rightarrow>
           1 \<le> m \<and> m \<le> 12 \<and> 1 \<le> d \<and>
           d \<le> (if m = 2 \<and> lp then 29 else DAYS_IN_MONTH ! nat (m - 1)) \<and>
           DAYS_BEFORE_MONTH ! nat (m - 1) + (if m > 2 \<and> lp then 1 else 0) + d = r + 1"
        using r3 by (intro month_day_correct) auto
      then have mdc: "1 \<le> m" "m \<le> 12" "1 \<le> d"
           "d \<le> (if m = 2 \<and> lp then 29 else DAYS_IN_MONTH ! nat (m - 1))"
           "DAYS_BEFORE_MONTH ! nat (m - 1) + (if m > 2 \<and> lp then 1 else 0) + d = r + 1"
        unfolding md by simp_all
      have "ymd2ord y m d = n0"
        unfolding ymd2ord_def days_before_month_def dby lp n0 using mdc(5) by simp
      moreover have "d \<le> days_in_month y m" unfolding days_in_month_def lp using mdc(4) by simp
      moreover have "1 \<le> y" unfolding y_def using a0 b0 c0 e0 by linarith
      ultimately show ?thesis unfolding unf using False b4 md mdc lp_def by simp
    qed
  qed
qed

lemma div_succ:
  fixes x k :: int
  assumes "0 < k"
  shows "(x + 1) div k = x div k + (if (x + 1) mod k = 0 then 1 else 0)"
proof -
  define q where "q = x div k"
  define r where "r = x mod k"
  have x: "x + 1 = (r + 1) + q * k" by (simp add: q_def r_def)
  have r: "0 \<le> r" "r < k" using assms by (simp_all add: r_def)
  have k0: "k \<noteq> 0" using assms by simp
  have d: "(x + 1) div k = q + (r + 1) div k" unfolding x using k0 by (rule div_mult_self1)
  have m: "(x + 1) mod k = (r + 1) mod k" unfolding x by (rule mod_mult_self1)
  show ?thesis
  proof (cases "r + 1 < k")
    case True
    with r have "(r + 1) div k = 0" "(r + 1) mod k = r + 1" by (simp_all add: div_pos_pos_trivial mod_pos_pos_trivial)
    with d m r show ?thesis by (simp add: q_def)
  next
    case False
    with r have "r + 1 = k" by simp
    with k0 have "(r + 1) div k = 1" "(r + 1) mod k = 0" by simp_all
    with d m show ?thesis by (simp add: q_def)
  qed
qed

lemma mod_100_4: "(y::int) mod 100 = 0 \<Longrightarrow> y mod 4 = 0"
proof -
  assume "y mod 100 = 0"
  then have "100 dvd y" by (rule mod_0_imp_dvd)
  moreover have "(4::int) dvd 100" by simp
  ultimately have "4 dvd y" by (rule dvd_trans [rotated])
  then show ?thesis by (rule dvd_imp_mod_0)
qed

lemma mod_400_100: "(y::int) mod 400 = 0 \<Longrightarrow> y mod 100 = 0"
proof -
  assume "y mod 400 = 0"
  then have "400 dvd y" by (rule mod_0_imp_dvd)
  moreover have "(100::int) dvd 400" by simp
  ultimately have "100 dvd y" by (rule dvd_trans [rotated])
  then show ?thesis by (rule dvd_imp_mod_0)
qed

lemma days_before_year_Suc:
  "days_before_year (y + 1) = days_before_year y + (if is_leap y then 366 else 365)"
proof -
  have a: "y div 4 = (y - 1) div 4 + (if y mod 4 = 0 then 1 else 0)"
    using div_succ [of 4 "y - 1"] by simp
  have b: "y div 100 = (y - 1) div 100 + (if y mod 100 = 0 then 1 else 0)"
    using div_succ [of 100 "y - 1"] by simp
  have c: "y div 400 = (y - 1) div 400 + (if y mod 400 = 0 then 1 else 0)"
    using div_succ [of 400 "y - 1"] by simp
  have eq: "days_before_year (y + 1) = days_before_year y + 365
      + (if y mod 4 = 0 then 1 else 0) - (if y mod 100 = 0 then 1 else 0) + (if y mod 400 = 0 then 1 else 0)"
    unfolding days_before_year_def Let_def by (simp only: add_diff_cancel_right' a b c) (simp add: algebra_simps)
  show ?thesis
  proof (cases "y mod 400 = 0")
    case True
    then have "y mod 100 = 0" by (rule mod_400_100)
    then have "y mod 4 = 0" by (rule mod_100_4)
    with True \<open>y mod 100 = 0\<close> show ?thesis unfolding eq is_leap_def by simp
  next
    case False
    show ?thesis
    proof (cases "y mod 100 = 0")
      case True
      then have "y mod 4 = 0" by (rule mod_100_4)
      with True False show ?thesis unfolding eq is_leap_def by simp
    next
      case h: False
      with False show ?thesis unfolding eq is_leap_def by simp
    qed
  qed
qed

lemma days_before_year_mono:
  "y1 \<le> y2 \<Longrightarrow> days_before_year y1 \<le> days_before_year y2"
proof (induction y2 rule: int_ge_induct)
  case base
  show ?case by simp
next
  case (step i)
  have "days_before_year i \<le> days_before_year (i + 1)"
    unfolding days_before_year_Suc by simp
  with step.IH show ?case by simp
qed

lemma month_cases:
  fixes m :: int
  assumes "1 \<le> m" "m \<le> 12"
  shows "m = 1 \<or> m = 2 \<or> m = 3 \<or> m = 4 \<or> m = 5 \<or> m = 6
    \<or> m = 7 \<or> m = 8 \<or> m = 9 \<or> m = 10 \<or> m = 11 \<or> m = 12"
  using assms by arith

lemma days_before_month_Suc:
  assumes "1 \<le> m" "m \<le> 11"
  shows "days_before_month y (m + 1) = days_before_month y m + days_in_month y m"
proof -
  from assms have "m = 1 \<or> m = 2 \<or> m = 3 \<or> m = 4 \<or> m = 5 \<or> m = 6
    \<or> m = 7 \<or> m = 8 \<or> m = 9 \<or> m = 10 \<or> m = 11" by arith
  then show ?thesis
    by (elim disjE)
      (simp_all add: days_before_month_def days_in_month_def DAYS_BEFORE_MONTH_def DAYS_IN_MONTH_def)
qed

lemma days_in_month_bounds:
  assumes "1 \<le> m" "m \<le> 12"
  shows "28 \<le> days_in_month y m \<and> days_in_month y m \<le> 31"
  using month_cases [OF assms]
  by (elim disjE) (simp_all add: days_in_month_def DAYS_IN_MONTH_def)

lemma days_before_month_mono:
  assumes "1 \<le> m1" "m1 \<le> m2" "m2 \<le> 12"
  shows "days_before_month y m1 \<le> days_before_month y m2"
  using assms(2,1,3)
proof (induction m2 rule: int_ge_induct)
  case base
  show ?case by simp
next
  case (step i)
  then have "days_before_month y (i + 1) = days_before_month y i + days_in_month y i"
    by (intro days_before_month_Suc) simp_all
  moreover have "28 \<le> days_in_month y i" using step days_in_month_bounds [of i y] by simp
  ultimately show ?case using step by simp
qed

lemma day_of_year_bounds:
  assumes "1 \<le> m" "m \<le> 12" "1 \<le> d" "d \<le> days_in_month y m"
  shows "1 \<le> days_before_month y m + d"
    and "days_before_month y m + d \<le> (if is_leap y then 366 else 365)"
proof -
  have "days_before_month y 1 \<le> days_before_month y m" using assms by (intro days_before_month_mono) simp_all
  then show "1 \<le> days_before_month y m + d" using assms
    by (simp add: days_before_month_def DAYS_BEFORE_MONTH_def)
  have "days_before_month y m + days_in_month y m \<le> (if is_leap y then 366 else 365)"
    using month_cases [OF assms(1,2)]
    by (elim disjE)
      (simp_all add: days_before_month_def days_in_month_def DAYS_BEFORE_MONTH_def DAYS_IN_MONTH_def)
  with assms show "days_before_month y m + d \<le> (if is_leap y then 366 else 365)" by simp
qed

lemma ymd2ord_strict_mono:
  assumes v1: "1 \<le> m1" "m1 \<le> 12" "1 \<le> d1" "d1 \<le> days_in_month y1 m1"
    and v2: "1 \<le> m2" "m2 \<le> 12" "1 \<le> d2" "d2 \<le> days_in_month y2 m2"
    and lt: "(y1, m1, d1) < (y2, m2, d2)"
  shows "ymd2ord y1 m1 d1 < ymd2ord y2 m2 d2"
proof -
  from lt have "y1 < y2 \<or> y1 \<le> y2 \<and> (m1 < m2 \<or> m1 \<le> m2 \<and> d1 < d2)" by simp
  then have "y1 < y2 \<or> (y1 = y2 \<and> m1 < m2) \<or> (y1 = y2 \<and> m1 = m2 \<and> d1 < d2)" by arith
  then consider "y1 < y2" | "y1 = y2" "m1 < m2" | "y1 = y2" "m1 = m2" "d1 < d2"
    by blast
  then show ?thesis
  proof cases
    case 1
    have "ymd2ord y1 m1 d1 \<le> days_before_year y1 + (if is_leap y1 then 366 else 365)"
      unfolding ymd2ord_def using day_of_year_bounds(2) [OF v1] by simp
    also have "\<dots> = days_before_year (y1 + 1)" by (simp add: days_before_year_Suc)
    also have "\<dots> \<le> days_before_year y2" using 1 by (intro days_before_year_mono) simp
    also have "\<dots> < ymd2ord y2 m2 d2"
      unfolding ymd2ord_def using day_of_year_bounds(1) [OF v2] by simp
    finally show ?thesis .
  next
    case 2
    have "days_before_month y1 m1 + d1 \<le> days_before_month y1 m1 + days_in_month y1 m1"
      using v1 by simp
    also have "\<dots> = days_before_month y1 (m1 + 1)"
      using v1 v2 2 by (intro days_before_month_Suc [symmetric]) simp_all
    also have "\<dots> \<le> days_before_month y1 m2"
      using v1 v2 2 by (intro days_before_month_mono) simp_all
    also have "\<dots> < days_before_month y1 m2 + d2" using v2 by simp
    finally show ?thesis unfolding ymd2ord_def using 2 by simp
  next
    case 3
    then show ?thesis unfolding ymd2ord_def by simp
  qed
qed

lemma to_microseconds_split:
  "to_microseconds d = toordinal d * US_PER_DAY + time_us d"
  by (simp add: to_microseconds_def time_us_def US_PER_DAY_def algebra_simps)

lemma time_us_bounds:
  assumes "valid_time (hour d) (minute d) (second d) (microsecond d)"
  shows "0 \<le> time_us d" "time_us d < US_PER_DAY"
  using assms unfolding valid_time_def time_us_def US_PER_DAY_def by (auto simp: algebra_simps)

lemma time_us_strict_mono:
  assumes "valid_time (hour a) (minute a) (second a) (microsecond a)"
    and "valid_time (hour b) (minute b) (second b) (microsecond b)"
    and "(hour a, minute a, second a, microsecond a) < (hour b, minute b, second b, microsecond b)"
  shows "time_us a < time_us b"
proof -
  from assms(3) have "hour a < hour b \<or> hour a \<le> hour b \<and> (minute a < minute b \<or> minute a \<le> minute b
     \<and> (second a < second b \<or> second a \<le> second b \<and> microsecond a < microsecond b))" by simp
  then show ?thesis
    using assms(1,2) unfolding valid_time_def time_us_def by (auto simp: algebra_simps)
qed

lemma to_microseconds_strict_mono:
  assumes "valid_datetime a" "valid_datetime b" "dt_less a b"
  shows "to_microseconds a < to_microseconds b"
proof -
  from assms(1) have va: "1 \<le> month a" "month a \<le> 12" "1 \<le> day a" "day a \<le> days_in_month (year a) (month a)"
    and ta: "valid_time (hour a) (minute a) (second a) (microsecond a)"
    by (simp_all add: valid_datetime_def valid_date_def)
  from assms(2) have vb: "1 \<le> month b" "month b \<le> 12" "1 \<le> day b" "day b \<le> days_in_month (year b) (month b)"
    and tb: "valid_time (hour b) (minute b) (second b) (microsecond b)"
    by (simp_all add: valid_datetime_def valid_date_def)
  from assms(3) consider "(year a, month a, day a) < (year b, month b, day b)"
    | "(year a, month a, day a) = (year b, month b, day b)"
      "(hour a, minute a, second a, microsecond a) < (hour b, minute b, second b, microsecond b)"
    unfolding dt_less_def dt_key_def by simp arith
  then show ?thesis
  proof cases
    case 1
    then have "toordinal a < toordinal b"
      unfolding toordinal_def by (intro ymd2ord_strict_mono va vb)
    then have "toordinal a + 1 \<le> toordinal b" by simp
    then have "(toordinal a + 1) * US_PER_DAY \<le> toordinal b * US_PER_DAY"
      by (intro mult_right_mono) (simp_all add: US_PER_DAY_def)
    then show ?thesis
      unfolding to_microseconds_split using time_us_bounds [OF ta] time_us_bounds [OF tb]
      by (simp add: algebra_simps)
  next
    case 2
    then have "toordinal a = toordinal b" unfolding toordinal_def by simp
    then show ?thesis
      unfolding to_microseconds_split using time_us_strict_mono [OF ta tb 2(2)] by simp
  qed
qed

lemma days_before_year_MAX: "days_before_year 10000 = MAXORDINAL"
  by (simp add: days_before_year_def MAXORDINAL_def)

lemma valid_timeI:
  "0 \<le> h \<Longrightarrow> h < 24 \<Longrightarrow> 0 \<le> mi \<Longrightarrow> mi < 60 \<Longrightarrow> 0 \<le> s \<Longrightarrow> s < 60 \<Longrightarrow>
   0 \<le> us \<Longrightarrow> us < 1000000 \<Longrightarrow> valid_time h mi s us"
  by (simp add: valid_time_def)

lemma ord2ymd_valid:
  assumes "1 \<le> n" "n \<le> MAXORDINAL" "ord2ymd n = (y, m, d)"
  shows "valid_date y m d" "ymd2ord y m d = n"
proof -
  from ord2ymd_correct [OF assms(1)] assms(3)
  have c: "1 \<le> y" "1 \<le> m" "m \<le> 12" "1 \<le> d" "d \<le> days_in_month y m" "ymd2ord y m d = n"
    by simp_all
  show "ymd2ord y m d = n" by (rule c)
  have "y \<le> 9999"
  proof (rule ccontr)
    assume "\<not> y \<le> 9999"
    then have "days_before_year 10000 \<le> days_before_year y" by (intro days_before_year_mono) simp
    moreover have "1 \<le> days_before_month y m + d" using c by (intro day_of_year_bounds(1))
    ultimately have "MAXORDINAL < ymd2ord y m d"
      unfolding ymd2ord_def days_before_year_MAX by simp
    with c assms(2) show False by simp
  qed
  with c show "valid_date y m d" by (simp add: valid_date_def MINYEAR_def MAXYEAR_def)
qed

lemma of_microseconds_correct:
  assumes "1 \<le> t div US_PER_DAY" "t div US_PER_DAY \<le> MAXORDINAL"
  shows "valid_datetime (of_microseconds t)" "to_microseconds (of_microseconds t) = t"
proof -
  define days where "days = t div US_PER_DAY"
  define u where "u = t mod US_PER_DAY"
  define secs where "secs = u div 1000000"
  obtain y m d where ymd: "ord2ymd days = (y, m, d)" by (cases "ord2ymd days") auto
  have r: "of_microseconds t = \<lparr>year = y, month = m, day = d,
          hour = secs div 3600, minute = (secs mod 3600) div 60, second = secs mod 60,
          microsecond = u mod 1000000\<rparr>"
    unfolding of_microseconds_def Let_def days_def[symmetric] u_def[symmetric] secs_def[symmetric] ymd
    by simp
  have u: "0 \<le> u" "u < 86400000000" unfolding u_def US_PER_DAY_def by simp_all
  have us: "u = 1000000 * secs + u mod 1000000" "0 \<le> u mod 1000000" "u mod 1000000 < 1000000"
    unfolding secs_def by simp_all
  with u have secs: "0 \<le> secs" "secs < 86400" by linarith+
  have hs: "secs = 3600 * (secs div 3600) + secs mod 3600" "0 \<le> secs mod 3600" "secs mod 3600 < 3600"
    by simp_all
  with secs have h: "0 \<le> secs div 3600" "secs div 3600 < 24" by linarith+
  have ms: "secs mod 3600 = 60 * (secs mod 3600 div 60) + secs mod 3600 mod 60"
    "0 \<le> secs mod 3600 mod 60" "secs mod 3600 mod 60 < 60"
    by simp_all
  with hs have mi: "0 \<le> secs mod 3600 div 60" "secs mod 3600 div 60 < 60" by linarith+
  have v: "valid_date y m d" and o: "ymd2ord y m d = days"
    using assms ymd unfolding days_def[symmetric] by (rule ord2ymd_valid)+
  have "0 \<le> secs mod 60" "secs mod 60 < 60" by simp_all
  with h mi us(2,3) have "valid_time (secs div 3600) (secs mod 3600 div 60) (secs mod 60) (u mod 1000000)"
    by (intro valid_timeI)
  with v show "valid_datetime (of_microseconds t)"
    unfolding r valid_datetime_def by simp
  have "secs mod 3600 mod 60 = secs mod 60" by (simp add: mod_mod_cancel)
  with ms(1) have "secs mod 3600 = 60 * (secs mod 3600 div 60) + secs mod 60" by simp
  with hs(1) have "secs = 3600 * (secs div 3600) + (60 * (secs mod 3600 div 60) + secs mod 60)" by simp
  also have "\<dots> = ((secs div 3600) * 60 + (secs mod 3600) div 60) * 60 + secs mod 60"
    by (simp add: algebra_simps)
  finally have s: "secs = ((secs div 3600) * 60 + (secs mod 3600) div 60) * 60 + secs mod 60" .
  have "time_us (of_microseconds t) =
      ((secs div 3600 * 60 + secs mod 3600 div 60) * 60 + secs mod 60) * 1000000 + u mod 1000000"
    unfolding r time_us_def by simp
  also have "\<dots> = secs * 1000000 + u mod 1000000" by (simp only: s [symmetric])
  also have "\<dots> = u" unfolding secs_def by simp
  finally have tu: "time_us (of_microseconds t) = u" .
  have "toordinal (of_microseconds t) = days" unfolding toordinal_def r using o by simp
  with tu show "to_microseconds (of_microseconds t) = t"
    unfolding to_microseconds_split days_def u_def by simp
qed

lemma dt_key_inj: "dt_key a = dt_key b \<Longrightarrow> a = b"
  by (cases a, cases b) (simp add: dt_key_def)

lemma of_microseconds_strict_mono:
  assumes "1 \<le> t1 div US_PER_DAY" "t1 div US_PER_DAY \<le> MAXORDINAL"
    and "1 \<le> t2 div US_PER_DAY" "t2 div US_PER_DAY \<le> MAXORDINAL"
    and "t1 < t2"
  shows "dt_less (of_microseconds t1) (of_microseconds t2)"
proof (rule ccontr)
  assume "\<not> dt_less (of_microseconds t1) (of_microseconds t2)"
  then have "dt_key (of_microseconds t2) \<le> dt_key (of_microseconds t1)"
    unfolding dt_less_def by simp
  then have "dt_key (of_microseconds t2) < dt_key (of_microseconds t1)
      \<or> dt_key (of_microseconds t2) = dt_key (of_microseconds t1)"
    by (rule le_imp_less_or_eq)
  then consider "dt_key (of_microseconds t2) = dt_key (of_microseconds t1)"
    | "dt_less (of_microseconds t2) (of_microseconds t1)"
    unfolding dt_less_def by blast
  then show False
  proof cases
    case 1
    then have "of_microseconds t2 = of_microseconds t1" by (rule dt_key_inj)
    then have "to_microseconds (of_microseconds t2) = to_microseconds (of_microseconds t1)" by simp
    then have "t2 = t1" using assms by (simp add: of_microseconds_correct)
    with assms show False by simp
  next
    case 2
    then have "to_microseconds (of_microseconds t2) < to_microseconds (of_microseconds t1)"
      using assms by (intro to_microseconds_strict_mono of_microseconds_correct)
    then have "t2 < t1" using assms by (simp add: of_microseconds_correct)
    with assms show False by simp
  qed
qed

lemma add_timedelta_strict_mono:
  assumes "valid_datetime a" "valid_datetime b" "dt_less a b"
    and "add_timedelta a k = Inr ra" "add_timedelta b k = Inr rb"
  shows "dt_less ra rb"
proof -
  from assms(4) have a: "0 < (to_microseconds a + k) div US_PER_DAY" "(to_microseconds a + k) div US_PER_DAY \<le> MAXORDINAL"
     "ra = of_microseconds (to_microseconds a + k)"
    unfolding add_timedelta_def Let_def by (auto split: if_splits)
  from assms(5) have b: "0 < (to_microseconds b + k) div US_PER_DAY" "(to_microseconds b + k) div US_PER_DAY \<le> MAXORDINAL"
     "rb = of_microseconds (to_microseconds b + k)"
    unfolding add_timedelta_def Let_def by (auto split: if_splits)
  have "to_microseconds a + k < to_microseconds b + k"
    using to_microseconds_strict_mono [OF assms(1-3)] by simp
  then show ?thesis unfolding a b using a b by (intro of_microseconds_strict_mono) simp_all
qed

subsection \<open>Generating the dates\<close>

text \<open>
  \<^verbatim>\<open>Calendar.generate_dates\<close> (lines 135 to 141): the \<^verbatim>\<open>while\<close> loop as a recursion on
  the loop variables \<^verbatim>\<open>current\<close> and \<^verbatim>\<open>dates\<close>. \<^verbatim>\<open>current += timedelta(days=1)\<close> can raise
  \<^verbatim>\<open>OverflowError\<close>, past 9999-12-31.
\<close>

function generate_dates_loop :: "datetime \<Rightarrow> datetime \<Rightarrow> datetime list \<Rightarrow> error + datetime list" where
  "generate_dates_loop current end' dates =
     (if dt_le current end'
      then (case add_timedelta current 86400000000 of
              Inl e \<Rightarrow> Inl e
            | Inr current' \<Rightarrow> generate_dates_loop current' end' (dates @ [current]))
      else Inr dates)"
  by pat_completeness auto
termination
proof (relation "measure (\<lambda>(current, end', dates).
         nat (MAXORDINAL + 1 - to_microseconds current div US_PER_DAY))")
  show "wf (measure (\<lambda>(current, end', dates).
         nat (MAXORDINAL + 1 - to_microseconds current div US_PER_DAY)))"
    by simp
next
  fix current end' :: datetime and dates :: "datetime list" and current' :: datetime
  assume "dt_le current end'" and add: "add_timedelta current 86400000000 = Inr current'"
  define t where "t = to_microseconds current + 86400000000"
  from add have r: "0 < t div US_PER_DAY" "t div US_PER_DAY \<le> MAXORDINAL"
    "current' = of_microseconds t"
    unfolding add_timedelta_def Let_def t_def by (auto split: if_splits)
  then have "to_microseconds current' = t" by (simp add: of_microseconds_correct)
  moreover have "t div US_PER_DAY = to_microseconds current div US_PER_DAY + 1"
    unfolding t_def US_PER_DAY_def by simp
  ultimately show "((current', end', dates @ [current]), (current, end', dates))
      \<in> measure (\<lambda>(current, end', dates).
           nat (MAXORDINAL + 1 - to_microseconds current div US_PER_DAY))"
    using r by simp
qed

declare generate_dates_loop.simps [simp del]

definition generate_dates :: "datetime \<Rightarrow> datetime \<Rightarrow> error + datetime list" where
  "generate_dates start_arg end_arg = generate_dates_loop start_arg end_arg []"

text \<open>
  A \<^verbatim>\<open>Calendar\<close> is a \<^verbatim>\<open>DataSeries\<close> with the attributes \<^verbatim>\<open>start\<close> and \<^verbatim>\<open>end\<close>.
  \<^verbatim>\<open>__init__\<close> (lines 129 to 133) keeps an argument that is a \<^verbatim>\<open>datetime\<close> and gives any
  other to \<^verbatim>\<open>fromstr\<close>, whose \<^verbatim>\<open>re.match\<close> raises \<^verbatim>\<open>TypeError\<close> on what is not a string.
\<close>

record Calendar = DataSeries +
  start :: datetime
  end' :: datetime

definition to_datetime :: "pyval \<Rightarrow> error + datetime" where
  "to_datetime v =
     (case v of PyDatetime d \<Rightarrow> Inr d | PyStr s \<Rightarrow> fromstr s | _ \<Rightarrow> Inl TypeError)"

definition Calendar_init :: "pyval \<Rightarrow> pyval \<Rightarrow> error + Calendar" where
  "Calendar_init start_arg end_arg =
     (case to_datetime start_arg of
        Inl e \<Rightarrow> Inl e
      | Inr s \<Rightarrow>
          (case to_datetime end_arg of
             Inl e \<Rightarrow> Inl e
           | Inr e \<Rightarrow>
               (case generate_dates s e of
                  Inl err \<Rightarrow> Inl err
                | Inr dates \<Rightarrow>
                    Inr \<lparr>series = map PyDatetime dates, affinity = Temporal,
                         start = s, end' = e\<rparr>)))"

section \<open>TemporalAccumulator\<close>

record StaticMap =
  values' :: "(pyval \<times> pyval) list"

text \<open>
  The object under construction. \<^verbatim>\<open>processed_data\<close> is \<open>None\<close> until \<^verbatim>\<open>accumulate\<close>
  has returned, and stays \<open>None\<close> when \<^verbatim>\<open>accumulate\<close> returns \<^verbatim>\<open>None\<close>.
\<close>

record TemporalAccumulator =
  temporal_dimension :: DataSeries
  catagories :: "DataSeries list"
  quantities :: "DataSeries list"
  static_maps :: "StaticMap list"
  calendar :: Calendar
  interval :: Interval
  processed_data :: "DataSeries list option"

text \<open>
  The nested dictionaries \<^verbatim>\<open>categorize\<close> builds. A Python \<^verbatim>\<open>dict\<close> keeps its keys in
  insertion order, so it is an association list with distinct keys: a new key goes to the
  end, an assignment to a present key keeps its place. \<open>Rows\<close> is a list stored as a
  value (the series under \<^verbatim>\<open>"__all__"\<close>).
\<close>

datatype node = Dict "(pyval \<times> node) list" | Rows "pyval list"

text \<open>
  The inner loop of lines 180 to 185, for row \<open>i\<close>, from the dictionary \<^verbatim>\<open>prev\<close> down.
  \<^verbatim>\<open>prev\<close> aliases a dictionary inside \<^verbatim>\<open>categorization_map\<close>; the model returns the
  updated dictionary and the caller stores it back under its key. \<^verbatim>\<open>sub_category[i]\<close>
  raises \<^verbatim>\<open>IndexError\<close> past the end of a shorter series.
\<close>

fun descend :: "DataSeries list \<Rightarrow> nat \<Rightarrow> node \<Rightarrow> error + node" where
  "descend [] i prev = Inr prev"
| "descend (sub_category # rest) i (Dict prev) =
     (if i < length (series sub_category)
      then
        (let sub_category_value = series sub_category ! i;
             prev1 = (if map_of prev sub_category_value = None
                      then prev @ [(sub_category_value, Dict [])] else prev)
         in case map_of prev1 sub_category_value of
              None \<Rightarrow> Inl KeyError
            | Some child \<Rightarrow>
                (case descend rest i child of
                   Inl e \<Rightarrow> Inl e
                 | Inr child' \<Rightarrow> Inr (Dict (AList.update sub_category_value child' prev1))))
      else Inl IndexError)"
| "descend (sub_category # rest) i (Rows xs) = Inl TypeError"

text \<open>The outer loop of lines 175 to 185 over \<^verbatim>\<open>enumerate(self.catagories[0])\<close>.\<close>

fun categorize_rows ::
  "DataSeries list \<Rightarrow> (nat \<times> pyval) list \<Rightarrow> (pyval \<times> node) list \<Rightarrow> error + (pyval \<times> node) list"
where
  "categorize_rows cats [] categorization_map = Inr categorization_map"
| "categorize_rows cats ((i, category_value) # rows) categorization_map =
     (let map1 = (if map_of categorization_map category_value = None
                  then categorization_map @ [(category_value, Dict [])]
                  else categorization_map)
      in if length cats > 1
         then (case map_of map1 category_value of
                 None \<Rightarrow> Inl KeyError
               | Some prev \<Rightarrow>
                   (case descend (tl cats) i prev of
                      Inl e \<Rightarrow> Inl e
                    | Inr prev' \<Rightarrow>
                        categorize_rows cats rows (AList.update category_value prev' map1)))
         else categorize_rows cats rows map1)"

text \<open>\<^verbatim>\<open>TemporalAccumulator.categorize\<close> (lines 169 to 186).\<close>

definition categorize :: "TemporalAccumulator \<Rightarrow> error + node" where
  "categorize self =
     (if length (catagories self) = 0
      then Inr (Dict [(PyStr ''__all__'', Rows (series (temporal_dimension self)))])
      else (case categorize_rows (catagories self)
                   (enumerate 0 (series (hd (catagories self)))) [] of
              Inl e \<Rightarrow> Inl e
            | Inr categorization_map \<Rightarrow> Inr (Dict categorization_map)))"

text \<open>
  \<^verbatim>\<open>TemporalAccumulator.accumulate\<close> (lines 191 to 196). \<^verbatim>\<open>accumulation_map\<close> is empty
  when the loop starts, so the first pass raises \<^verbatim>\<open>KeyError\<close> at line 194; the statement
  of line 196, which the source leaves unfinished, is never reached. With no category
  dimension the loop body does not run and the method ends without a \<^verbatim>\<open>return\<close>, which
  is \<^verbatim>\<open>None\<close>.
\<close>

definition accumulate :: "TemporalAccumulator \<Rightarrow> error + DataSeries list option" where
  "accumulate self =
     (case catagories self of
        [] \<Rightarrow> Inr None
      | category # rest \<Rightarrow> Inl KeyError)"

text \<open>
  The arguments of \<^verbatim>\<open>__init__\<close> (lines 153 to 160). \<^verbatim>\<open>catagories\<close> and \<^verbatim>\<open>quantities\<close>
  are \<^verbatim>\<open>None\<close>, one series or a list of series; an object with \<^verbatim>\<open>__len__\<close> is false when
  its length is 0, which is how lines 162 to 165 test a single series and the calendar.
\<close>

datatype series_arg = NoSeries | OneSeries DataSeries | SeriesList "DataSeries list"

definition as_list :: "series_arg \<Rightarrow> DataSeries list" where
  "as_list a =
     (case a of
        SeriesList xs \<Rightarrow> xs
      | OneSeries x \<Rightarrow> (if series x \<noteq> [] then [x] else [])
      | NoSeries \<Rightarrow> [])"

definition default_calendar :: "DataSeries \<Rightarrow> error + Calendar" where
  "default_calendar td =
     (case series td of
        [] \<Rightarrow> Inl IndexError
      | x # xs \<Rightarrow> Calendar_init (hd (series td)) (last (series td)))"

definition TemporalAccumulator_init ::
  "DataSeries \<Rightarrow> series_arg \<Rightarrow> series_arg \<Rightarrow> StaticMap list option \<Rightarrow> Calendar option \<Rightarrow>
   Interval option \<Rightarrow> error + TemporalAccumulator"
where
  "TemporalAccumulator_init td cats_arg quants_arg maps_arg calendar_arg interval_arg =
     (case (case calendar_arg of
              None \<Rightarrow> default_calendar td
            | Some c \<Rightarrow> (if series c \<noteq> [] then Inr c else default_calendar td)) of
        Inl e \<Rightarrow> Inl e
      | Inr cal \<Rightarrow>
          (let self = \<lparr>temporal_dimension = td,
                       catagories = as_list cats_arg,
                       quantities = as_list quants_arg,
                       static_maps = (case maps_arg of None \<Rightarrow> [] | Some ms \<Rightarrow> ms),
                       calendar = cal,
                       interval = (case interval_arg of
                                     None \<Rightarrow> \<lparr>unit = Days, scalar = 1\<rparr>
                                   | Some iv \<Rightarrow> iv),
                       processed_data = None\<rparr>
           in case accumulate self of
                Inl e \<Rightarrow> Inl e
              | Inr out \<Rightarrow> Inr (self\<lparr>processed_data := out\<rparr>)))"

section \<open>Vocabulary of the properties\<close>

subsection \<open>The calendar of the specification\<close>

text \<open>
  The leap-year rule in the words of the specification: divisible by 4 and not by 100,
  unless divisible by 400; and the last day of a month under that rule.
\<close>

definition gregorian_leap_year :: "int \<Rightarrow> bool" where
  "gregorian_leap_year y = (4 dvd y \<and> \<not> 100 dvd y \<or> 400 dvd y)"

definition last_day_of_month :: "int \<Rightarrow> int \<Rightarrow> int" where
  "last_day_of_month y m =
     (if m = 2 then (if gregorian_leap_year y then 29 else 28)
      else if m = 4 \<or> m = 6 \<or> m = 9 \<or> m = 11 then 30 else 31)"

text \<open>The number of months from year 0 to the month of a date.\<close>

definition month_index :: "datetime \<Rightarrow> int" where
  "month_index d = 12 * year d + (month d - 1)"

subsection \<open>The two string forms\<close>

text \<open>
  The two string forms in the words of the specification: \<^verbatim>\<open>YYYY-MM-DD\<close> and
  \<^verbatim>\<open>YYYY-MM-DDTHH:MM:SS\<close>, with every number zero-padded to its width.
\<close>

definition digit_char :: "int \<Rightarrow> char" where
  "digit_char n = ''0123456789'' ! nat n"

definition pad2 :: "int \<Rightarrow> string" where
  "pad2 n = [digit_char (n div 10), digit_char (n mod 10)]"

definition pad4 :: "int \<Rightarrow> string" where
  "pad4 n = [digit_char (n div 1000), digit_char (n div 100 mod 10),
             digit_char (n div 10 mod 10), digit_char (n mod 10)]"

definition iso_date :: "int \<Rightarrow> int \<Rightarrow> int \<Rightarrow> string" where
  "iso_date y m d = pad4 y @ ''-'' @ pad2 m @ ''-'' @ pad2 d"

definition iso_datetime :: "int \<Rightarrow> int \<Rightarrow> int \<Rightarrow> int \<Rightarrow> int \<Rightarrow> int \<Rightarrow> string" where
  "iso_datetime y m d h mi s =
     iso_date y m d @ ''T'' @ pad2 h @ '':'' @ pad2 mi @ '':'' @ pad2 s"

text \<open>The number that the \<open>n\<close> characters of a string from position \<open>k\<close> on write.\<close>

definition number_at :: "string \<Rightarrow> nat \<Rightarrow> nat \<Rightarrow> int" where
  "number_at s k n = digits_val (take n (drop k s))"

subsection \<open>Nested dictionaries\<close>

text \<open>
  Reading a nested dictionary: the node under a key path, the keys of a dictionary in
  their order, the number of key levels. \<open>first_seen\<close> keeps the first occurrence of each
  value. The key path of row \<open>i\<close> is the list of the values of the category dimensions at
  position \<open>i\<close>. \<open>insert_path\<close> adds one key path to a nested dictionary; \<^verbatim>\<open>categorize\<close>
  turns out to add the key paths of the rows one after the other.
\<close>

fun lookup_path :: "pyval list \<Rightarrow> node \<Rightarrow> node option" where
  "lookup_path [] n = Some n"
| "lookup_path (k # ks) (Dict kvs) =
     (case map_of kvs k of None \<Rightarrow> None | Some child \<Rightarrow> lookup_path ks child)"
| "lookup_path (k # ks) (Rows xs) = None"

fun keys :: "node \<Rightarrow> pyval list" where
  "keys (Dict kvs) = map fst kvs"
| "keys (Rows xs) = []"

fun depth :: "node \<Rightarrow> nat" where
  "depth (Dict kvs) = foldr (\<lambda>kv acc. max (Suc (depth (snd kv))) acc) kvs 0"
| "depth (Rows xs) = 0"

fun no_rows :: "node \<Rightarrow> bool" where
  "no_rows (Dict kvs) = list_all (\<lambda>kv. no_rows (snd kv)) kvs"
| "no_rows (Rows xs) = False"

fun first_seen :: "'a list \<Rightarrow> 'a list" where
  "first_seen [] = []"
| "first_seen (x # xs) = x # removeAll x (first_seen xs)"

definition row_path :: "DataSeries list \<Rightarrow> nat \<Rightarrow> pyval list" where
  "row_path cats i = map (\<lambda>c. series c ! i) cats"

definition row_paths :: "DataSeries list \<Rightarrow> pyval list list" where
  "row_paths cats = map (row_path cats) [0..<length (series (hd cats))]"

fun insert_path :: "pyval list \<Rightarrow> node \<Rightarrow> node" where
  "insert_path [] n = n"
| "insert_path (k # ks) (Dict kvs) =
     (case map_of kvs k of
        None \<Rightarrow> Dict (kvs @ [(k, insert_path ks (Dict []))])
      | Some child \<Rightarrow> Dict (AList.update k (insert_path ks child) kvs))"
| "insert_path (k # ks) (Rows xs) = Rows xs"

text \<open>
  A key path \<open>q\<close> extends \<open>p\<close> when \<open>p\<close> is its beginning. The keys expected under \<open>p\<close>:
  the next value of every key path that goes on beyond \<open>p\<close>, each once, first seen first.
\<close>

definition keys_under :: "pyval list list \<Rightarrow> pyval list \<Rightarrow> pyval list" where
  "keys_under ps p =
     first_seen (map (\<lambda>q. q ! length p)
       (filter (\<lambda>q. length p < length q \<and> take (length p) q = p) ps))"

definition extends :: "pyval list \<Rightarrow> pyval list \<Rightarrow> bool" where
  "extends q p = (length p \<le> length q \<and> take (length p) q = p)"

text \<open>The row positions whose rows have a given key path, in the words of the specification.\<close>

definition positions_sharing :: "DataSeries list \<Rightarrow> pyval list \<Rightarrow> nat list" where
  "positions_sharing cats p =
     filter (\<lambda>i. row_path cats i = p) [0..<length (series (hd cats))]"

subsection \<open>Example inputs\<close>

text \<open>Three days of January 2025, in order and out of order.\<close>

definition jan :: "int \<Rightarrow> datetime" where
  "jan d = \<lparr>year = 2025, month = 1, day = d, hour = 0, minute = 0, second = 0, microsecond = 0\<rparr>"

definition three_days :: DataSeries where
  "three_days = \<lparr>series = [PyDatetime (jan 1), PyDatetime (jan 2), PyDatetime (jan 3)],
                  affinity = Temporal\<rparr>"

definition unsorted_days :: DataSeries where
  "unsorted_days = \<lparr>series = [PyDatetime (jan 3), PyDatetime (jan 1), PyDatetime (jan 2)],
                     affinity = Temporal\<rparr>"

text \<open>
  An accumulator object over the three days whose \<^verbatim>\<open>catagories\<close> attribute holds the given
  series, and the two category dimensions a, a, b and x, y, x.
\<close>

definition example_self :: "DataSeries list \<Rightarrow> TemporalAccumulator" where
  "example_self cats =
     \<lparr>temporal_dimension = three_days, catagories = cats, quantities = [], static_maps = [],
      calendar = \<lparr>series = [PyDatetime (jan 1), PyDatetime (jan 2), PyDatetime (jan 3)],
                   affinity = Temporal, start = jan 1, end' = jan 3\<rparr>,
      interval = \<lparr>unit = Days, scalar = 1\<rparr>, processed_data = None\<rparr>"

definition ab_xy :: "DataSeries list" where
  "ab_xy = [\<lparr>series = [PyStr ''a'', PyStr ''a'', PyStr ''b''], affinity = Categorical\<rparr>,
            \<lparr>series = [PyStr ''x'', PyStr ''y'', PyStr ''x''], affinity = Categorical\<rparr>]"

definition ab_xy_tree :: node where
  "ab_xy_tree =
     Dict [(PyStr ''a'', Dict [(PyStr ''x'', Dict []), (PyStr ''y'', Dict [])]),
           (PyStr ''b'', Dict [(PyStr ''x'', Dict [])])]"

section \<open>Properties\<close>

subsection \<open>DataSeries construction\<close>

text \<open>
  Claim C10. For every list of values, every affinity and any two aggregation policies,
  constructing a DataSeries gives identical objects: the aggregation argument is accepted
  and never stored, so the object has no attribute that could carry it.
\<close>

theorem DataSeries_init_ignores_aggregation:
  "DataSeries_init xs a g1 = DataSeries_init xs a g2"
  by (simp add: DataSeries_init_def)

subsection \<open>Month and year stepping\<close>

lemma is_leap_gregorian: "is_leap y = gregorian_leap_year y"
proof -
  have "100 dvd y \<Longrightarrow> 4 dvd y" using dvd_trans [of 4 100 y] by simp
  moreover have "400 dvd y \<Longrightarrow> 100 dvd y" using dvd_trans [of 100 400 y] by simp
  ultimately show ?thesis
    unfolding is_leap_def gregorian_leap_year_def by (auto simp: mod_eq_0_iff_dvd)
qed

lemma days_in_month_last_day:
  assumes "1 \<le> m" "m \<le> 12"
  shows "days_in_month y m = last_day_of_month y m"
  using month_cases [OF assms]
  by (elim disjE)
    (simp_all add: days_in_month_def last_day_of_month_def DAYS_IN_MONTH_def is_leap_gregorian)

lemma month_table_last_day:
  assumes "1 \<le> m" "m \<le> 12"
  shows "[31, if y mod 4 = 0 \<and> \<not> y mod 100 = 0 \<or> y mod 400 = 0 then 29 else 28,
          31, 30, 31, 30, 31, 31, 30, 31, 30, 31] ! nat (m - 1) = last_day_of_month y m"
  using month_cases [OF assms]
  by (elim disjE)
    (simp_all add: last_day_of_month_def gregorian_leap_year_def mod_eq_0_iff_dvd)

lemma Months_unfold:
  "Interval_next \<lparr>unit = Months, scalar = s\<rparr> d =
     replace d (Some ((month_index d + s) div 12)) (Some ((month_index d + s) mod 12 + 1))
       (Some (min (day d)
          (last_day_of_month ((month_index d + s) div 12) ((month_index d + s) mod 12 + 1))))"
proof -
  have "month_index d + s = (month d - 1 + s) + year d * 12" by (simp add: month_index_def)
  then have dv: "(month_index d + s) div 12 = year d + (month d - 1 + s) div 12"
    and md: "(month_index d + s) mod 12 = (month d - 1 + s) mod 12"
    by (simp_all only: div_mult_self1 [of 12] mod_mult_self1)
  have "0 \<le> (month d - 1 + s) mod 12" "(month d - 1 + s) mod 12 < 12" by simp_all
  then have "1 \<le> (month d - 1 + s) mod 12 + 1" "(month d - 1 + s) mod 12 + 1 \<le> 12" by simp_all
  then have tb: "[31, if (year d + (month d - 1 + s) div 12) mod 4 = 0 \<and>
                      \<not> (year d + (month d - 1 + s) div 12) mod 100 = 0 \<or>
                      (year d + (month d - 1 + s) div 12) mod 400 = 0 then 29 else 28,
          31, 30, 31, 30, 31, 31, 30, 31, 30, 31] ! nat ((month d - 1 + s) mod 12 + 1 - 1)
       = last_day_of_month (year d + (month d - 1 + s) div 12) ((month d - 1 + s) mod 12 + 1)"
    by (rule month_table_last_day)
  show ?thesis
    unfolding Interval_next_def Let_def dv md by (simp only: tb Interval.simps TemporalBaseUnits.case)
qed

lemma Months_result:
  assumes "valid_datetime d" "Interval_next \<lparr>unit = Months, scalar = s\<rparr> d = Inr r"
  shows "r = d\<lparr>year := (month_index d + s) div 12, month := (month_index d + s) mod 12 + 1,
               day := min (day d) (last_day_of_month ((month_index d + s) div 12) ((month_index d + s) mod 12 + 1))\<rparr>"
  using assms(2) unfolding Months_unfold replace_def mk_datetime_def
  by (cases d) (auto split: if_splits)

lemma Years_unfold:
  assumes "valid_datetime d"
  shows "Interval_next \<lparr>unit = Years, scalar = s\<rparr> d =
     (if MINYEAR \<le> year d + s \<and> year d + s \<le> MAXYEAR
      then (if day d \<le> days_in_month (year d + s) (month d)
            then Inr (d\<lparr>year := year d + s\<rparr>)
            else Inr (d\<lparr>year := year d + s, month := 2, day := 28\<rparr>))
      else Inl DateValueError)"
proof -
  from assms have v: "1 \<le> month d" "month d \<le> 12" "1 \<le> day d"
      "valid_time (hour d) (minute d) (second d) (microsecond d)"
    by (simp_all add: valid_datetime_def valid_date_def)
  have f: "(28::int) \<le> days_in_month (year d + s) 2"
    using days_in_month_bounds [of 2 "year d + s"] by simp
  show ?thesis
    unfolding Interval_next_def replace_def mk_datetime_def valid_date_def is_ValueError_def
    using v f by (cases d) auto
qed

text \<open>
  Claim C5. \<^verbatim>\<open>Interval.next\<close> with the Months unit lands in the month \<open>scalar\<close> months
  later and sets the day to the smaller of the original day and the last day of that month
  under the Gregorian leap-year rule. Jan 31 plus one month is Feb 28 in a common year and
  Feb 29 in a leap year. With the Years unit, Feb 29 plus a number of years that lands in a
  common year is Feb 28 of that year.
\<close>

theorem Interval_next_clamps_day:
  assumes "valid_datetime d"
  shows "(\<forall>s r. Interval_next \<lparr>unit = Months, scalar = s\<rparr> d = Inr r \<longrightarrow>
            12 * year r + (month r - 1) = 12 * year d + (month d - 1) + s \<and>
            day r = min (day d) (last_day_of_month (year r) (month r))) \<and>
         (month d = 1 \<and> day d = 31 \<longrightarrow>
            Interval_next \<lparr>unit = Months, scalar = 1\<rparr> d =
              Inr (d\<lparr>month := 2, day := (if gregorian_leap_year (year d) then 29 else 28)\<rparr>)) \<and>
         (\<forall>s. month d = 2 \<and> day d = 29 \<and> MINYEAR \<le> year d + s \<and> year d + s \<le> MAXYEAR \<and>
              \<not> gregorian_leap_year (year d + s) \<longrightarrow>
            Interval_next \<lparr>unit = Years, scalar = s\<rparr> d = Inr (d\<lparr>year := year d + s, day := 28\<rparr>))"
proof (intro conjI allI impI)
  fix s r
  assume n: "Interval_next \<lparr>unit = Months, scalar = s\<rparr> d = Inr r"
  have r: "r = d\<lparr>year := (month_index d + s) div 12, month := (month_index d + s) mod 12 + 1,
               day := min (day d) (last_day_of_month ((month_index d + s) div 12) ((month_index d + s) mod 12 + 1))\<rparr>"
    using assms n by (rule Months_result)
  show "day r = min (day d) (last_day_of_month (year r) (month r))"
    by (subst (1 2 3) r) simp
  have "12 * year r + (month r - 1) = 12 * ((month_index d + s) div 12) + (month_index d + s) mod 12"
    by (subst (1 2) r) simp
  also have "\<dots> = month_index d + s" by simp
  finally show "12 * year r + (month r - 1) = 12 * year d + (month d - 1) + s"
    by (simp add: month_index_def)
next
  assume a: "month d = 1 \<and> day d = 31"
  from assms have y: "MINYEAR \<le> year d" "year d \<le> MAXYEAR"
    and t: "valid_time (hour d) (minute d) (second d) (microsecond d)"
    by (simp_all add: valid_datetime_def valid_date_def)
  have "month_index d + 1 = 1 + year d * 12" using a by (simp add: month_index_def)
  then have "(month_index d + 1) div 12 = year d" "(month_index d + 1) mod 12 = 1"
    by (simp_all only: div_mult_self1 [of 12] mod_mult_self1) simp_all
  then show "Interval_next \<lparr>unit = Months, scalar = 1\<rparr> d =
              Inr (d\<lparr>month := 2, day := (if gregorian_leap_year (year d) then 29 else 28)\<rparr>)"
    unfolding Months_unfold replace_def mk_datetime_def valid_date_def
    using a y t
    by (cases d) (simp add: last_day_of_month_def days_in_month_def DAYS_IN_MONTH_def is_leap_gregorian)
next
  fix s
  assume a: "month d = 2 \<and> day d = 29 \<and> MINYEAR \<le> year d + s \<and> year d + s \<le> MAXYEAR \<and>
              \<not> gregorian_leap_year (year d + s)"
  then have "days_in_month (year d + s) (month d) = 28"
    by (simp add: days_in_month_def DAYS_IN_MONTH_def is_leap_gregorian)
  with a show "Interval_next \<lparr>unit = Years, scalar = s\<rparr> d = Inr (d\<lparr>year := year d + s, day := 28\<rparr>)"
    unfolding Years_unfold [OF assms] by (cases d) simp
qed

theorem Interval_next_clamps_day_witness:
  "Interval_next \<lparr>unit = Months, scalar = 1\<rparr>
     \<lparr>year = 2023, month = 1, day = 31, hour = 0, minute = 0, second = 0, microsecond = 0\<rparr> =
   Inr \<lparr>year = 2023, month = 2, day = 28, hour = 0, minute = 0, second = 0, microsecond = 0\<rparr> \<and>
   Interval_next \<lparr>unit = Months, scalar = 1\<rparr>
     \<lparr>year = 2024, month = 1, day = 31, hour = 0, minute = 0, second = 0, microsecond = 0\<rparr> =
   Inr \<lparr>year = 2024, month = 2, day = 29, hour = 0, minute = 0, second = 0, microsecond = 0\<rparr> \<and>
   Interval_next \<lparr>unit = Years, scalar = 1\<rparr>
     \<lparr>year = 2024, month = 2, day = 29, hour = 0, minute = 0, second = 0, microsecond = 0\<rparr> =
   Inr \<lparr>year = 2025, month = 2, day = 28, hour = 0, minute = 0, second = 0, microsecond = 0\<rparr>"
proof -
  let ?a = "\<lparr>year = 2023, month = 1, day = 31, hour = 0, minute = 0, second = 0, microsecond = 0\<rparr>"
  let ?b = "\<lparr>year = 2024, month = 1, day = 31, hour = 0, minute = 0, second = 0, microsecond = 0\<rparr>"
  let ?c = "\<lparr>year = 2024, month = 2, day = 29, hour = 0, minute = 0, second = 0, microsecond = 0\<rparr>"
  have va: "valid_datetime ?a" and vb: "valid_datetime ?b" and vc: "valid_datetime ?c"
    by (simp_all add: valid_datetime_def valid_date_def valid_time_def days_in_month_def
        DAYS_IN_MONTH_def is_leap_def MINYEAR_def MAXYEAR_def)
  have g: "\<not> gregorian_leap_year 2023" "gregorian_leap_year 2024" "\<not> gregorian_leap_year 2025"
    by (simp_all add: gregorian_leap_year_def)
  from Interval_next_clamps_day [OF va] g have "Interval_next \<lparr>unit = Months, scalar = 1\<rparr> ?a =
      Inr \<lparr>year = 2023, month = 2, day = 28, hour = 0, minute = 0, second = 0, microsecond = 0\<rparr>"
    by simp
  moreover from Interval_next_clamps_day [OF vb] g have "Interval_next \<lparr>unit = Months, scalar = 1\<rparr> ?b =
      Inr \<lparr>year = 2024, month = 2, day = 29, hour = 0, minute = 0, second = 0, microsecond = 0\<rparr>"
    by simp
  moreover from Interval_next_clamps_day [OF vc] g have "Interval_next \<lparr>unit = Years, scalar = 1\<rparr> ?c =
      Inr \<lparr>year = 2025, month = 2, day = 28, hour = 0, minute = 0, second = 0, microsecond = 0\<rparr>"
    by (simp add: MINYEAR_def MAXYEAR_def)
  ultimately show ?thesis by simp
qed

subsection \<open>A calendar whose end precedes its start\<close>

text \<open>
  Claim C6. For every pair of instants with the end before the start, given as
  \<^verbatim>\<open>datetime\<close> objects or as strings that convert to them, the date generation of
  \<^verbatim>\<open>Calendar\<close> returns, and returns the empty sequence: it raises nothing, and the
  construction of the calendar completes with an empty series.
\<close>

theorem generate_dates_end_before_start:
  assumes "to_datetime start_arg = Inr s" "to_datetime end_arg = Inr e" "dt_less e s"
  shows "generate_dates s e = Inr [] \<and>
         Calendar_init start_arg end_arg =
           Inr \<lparr>series = [], affinity = Temporal, start = s, end' = e\<rparr>"
proof -
  from assms(3) have "\<not> dt_le s e" unfolding dt_less_def dt_le_def by simp
  then have g: "generate_dates s e = Inr []"
    unfolding generate_dates_def by (subst generate_dates_loop.simps) simp
  with assms(1,2) show ?thesis by (simp add: Calendar_init_def)
qed

theorem generate_dates_end_before_start_witness:
  "Calendar_init (PyStr ''2025-03-05'') (PyStr ''2025-01-01'') =
   Inr \<lparr>series = [], affinity = Temporal,
        start = \<lparr>year = 2025, month = 3, day = 5, hour = 0, minute = 0, second = 0, microsecond = 0\<rparr>,
        end' = \<lparr>year = 2025, month = 1, day = 1, hour = 0, minute = 0, second = 0, microsecond = 0\<rparr>\<rparr>"
proof -
  let ?s = "\<lparr>year = 2025, month = 3, day = 5, hour = 0, minute = 0, second = 0, microsecond = 0\<rparr>"
  let ?e = "\<lparr>year = 2025, month = 1, day = 1, hour = 0, minute = 0, second = 0, microsecond = 0\<rparr>"
  have a: "to_datetime (PyStr ''2025-03-05'') = Inr ?s" by code_simp
  have b: "to_datetime (PyStr ''2025-01-01'') = Inr ?e" by code_simp
  have c: "dt_less ?e ?s" by (simp add: dt_less_def dt_key_def)
  from generate_dates_end_before_start [OF a b c] show ?thesis by simp
qed

subsection \<open>Order of dates under stepping\<close>

lemma divmod_lex_mono:
  fixes a b :: int
  assumes "a < b"
  shows "a div 12 < b div 12 \<or> (a div 12 = b div 12 \<and> a mod 12 < b mod 12)"
proof -
  define qa ra qb rb where "qa = a div 12" and "ra = a mod 12" and "qb = b div 12" and "rb = b mod 12"
  have "a = 12 * qa + ra" "b = 12 * qb + rb" "0 \<le> ra" "ra < 12" "0 \<le> rb" "rb < 12"
    unfolding qa_def ra_def qb_def rb_def by simp_all
  with assms have "qa < qb \<or> (qa = qb \<and> ra < rb)" by arith
  then show ?thesis unfolding qa_def ra_def qb_def rb_def .
qed

lemma dt_less_iff:
  "dt_less a b \<longleftrightarrow>
     (year a, month a) < (year b, month b) \<or>
     (year a, month a) = (year b, month b) \<and>
       (day a, hour a, minute a, second a, microsecond a) < (day b, hour b, minute b, second b, microsecond b)"
  unfolding dt_less_def dt_key_def by simp arith

lemma month_index_mono:
  assumes "valid_datetime a" "valid_datetime b" "(year a, month a) < (year b, month b)"
  shows "month_index a < month_index b"
proof -
  from assms(1,2) have "1 \<le> month a" "month a \<le> 12" "1 \<le> month b" "month b \<le> 12"
    by (simp_all add: valid_datetime_def valid_date_def)
  with assms(3) show ?thesis unfolding month_index_def by simp arith
qed

lemma Months_strict_mono:
  assumes v: "valid_datetime a" "valid_datetime b" and lt: "dt_less a b"
    and ra: "Interval_next \<lparr>unit = Months, scalar = s\<rparr> a = Inr ra"
    and rb: "Interval_next \<lparr>unit = Months, scalar = s\<rparr> b = Inr rb"
    and keep: "day ra = day a" "day rb = day b"
  shows "dt_less ra rb"
proof -
  note A = Months_result [OF v(1) ra] and B = Months_result [OF v(2) rb]
  have fa: "year ra = (month_index a + s) div 12" "month ra = (month_index a + s) mod 12 + 1"
    "hour ra = hour a" "minute ra = minute a" "second ra = second a" "microsecond ra = microsecond a"
    by (subst A, simp)+
  have fb: "year rb = (month_index b + s) div 12" "month rb = (month_index b + s) mod 12 + 1"
    "hour rb = hour b" "minute rb = minute b" "second rb = second b" "microsecond rb = microsecond b"
    by (subst B, simp)+
  from lt consider "(year a, month a) < (year b, month b)"
    | "(year a, month a) = (year b, month b)"
      "(day a, hour a, minute a, second a, microsecond a) < (day b, hour b, minute b, second b, microsecond b)"
    unfolding dt_less_iff by blast
  then show ?thesis
  proof cases
    case 1
    then have "month_index a + s < month_index b + s" using month_index_mono [OF v] by simp
    then have "year ra < year rb \<or> (year ra = year rb \<and> month ra < month rb)"
      unfolding fa fb using divmod_lex_mono by fastforce
    then show ?thesis unfolding dt_less_iff by auto
  next
    case 2
    then have "month_index a = month_index b" by (simp add: month_index_def)
    then have "year ra = year rb" "month ra = month rb" unfolding fa fb by simp_all
    with 2(2) show ?thesis unfolding dt_less_iff keep fa(3-) fb(3-) by simp
  qed
qed

lemma Years_strict_mono:
  assumes v: "valid_datetime a" "valid_datetime b" and lt: "dt_less a b"
    and ra: "Interval_next \<lparr>unit = Years, scalar = s\<rparr> a = Inr ra"
    and rb: "Interval_next \<lparr>unit = Years, scalar = s\<rparr> b = Inr rb"
    and keep: "day ra = day a" "day rb = day b"
  shows "dt_less ra rb"
proof -
  from v have m: "1 \<le> month a" "month a \<le> 12" "1 \<le> month b" "month b \<le> 12"
    by (simp_all add: valid_datetime_def valid_date_def)
  have da: "28 \<le> days_in_month (year a + s) (month a)"
    using days_in_month_bounds [OF m(1,2)] by simp
  have db: "28 \<le> days_in_month (year b + s) (month b)"
    using days_in_month_bounds [OF m(3,4)] by simp
  have A: "ra = a\<lparr>year := year a + s\<rparr>"
    using ra keep(1) da unfolding Years_unfold [OF v(1)] by (cases a) (auto split: if_splits)
  have B: "rb = b\<lparr>year := year b + s\<rparr>"
    using rb keep(2) db unfolding Years_unfold [OF v(2)] by (cases b) (auto split: if_splits)
  from lt show ?thesis unfolding A B dt_less_def dt_key_def by simp
qed

text \<open>
  Claim C4, as the code has it. For each of the eight units and any scalar, wherever
  \<^verbatim>\<open>Interval.next\<close> returns for two dates \<open>d1 < d2\<close>, the results are in the same strict
  order, provided that for Months and Years the step keeps the day of the month of both
  dates (no clamping to the end of a shorter month).
\<close>

theorem Interval_next_strict_mono:
  assumes "valid_datetime d1" "valid_datetime d2" "dt_less d1 d2"
    and "Interval_next iv d1 = Inr r1" "Interval_next iv d2 = Inr r2"
    and "unit iv = Months \<or> unit iv = Years \<Longrightarrow> day r1 = day d1 \<and> day r2 = day d2"
  shows "dt_less r1 r2"
proof (cases "unit iv")
  case Months
  then have iv: "iv = \<lparr>unit = Months, scalar = scalar iv\<rparr>" by (cases iv) simp
  from assms(6) Months have "day r1 = day d1" "day r2 = day d2" by simp_all
  with assms(1-5) show ?thesis by (subst (asm) (1 2) iv) (rule Months_strict_mono)
next
  case Years
  then have iv: "iv = \<lparr>unit = Years, scalar = scalar iv\<rparr>" by (cases iv) simp
  from assms(6) Years have "day r1 = day d1" "day r2 = day d2" by simp_all
  with assms(1-5) show ?thesis by (subst (asm) (1 2) iv) (rule Years_strict_mono)
next
  case (OtherUnit u)
  with assms(4) show ?thesis by (simp add: Interval_next_def)
qed (use assms(1-5) in \<open>auto simp: Interval_next_def intro: add_timedelta_strict_mono\<close>)

theorem Interval_next_strict_mono_witness:
  "valid_datetime \<lparr>year = 2024, month = 2, day = 28, hour = 0, minute = 0, second = 0, microsecond = 0\<rparr> \<and>
   valid_datetime \<lparr>year = 2024, month = 2, day = 29, hour = 0, minute = 0, second = 0, microsecond = 0\<rparr> \<and>
   Interval_next \<lparr>unit = Days, scalar = 1\<rparr>
     \<lparr>year = 2024, month = 2, day = 28, hour = 0, minute = 0, second = 0, microsecond = 0\<rparr> =
     Inr \<lparr>year = 2024, month = 2, day = 29, hour = 0, minute = 0, second = 0, microsecond = 0\<rparr> \<and>
   Interval_next \<lparr>unit = Days, scalar = 1\<rparr>
     \<lparr>year = 2024, month = 2, day = 29, hour = 0, minute = 0, second = 0, microsecond = 0\<rparr> =
     Inr \<lparr>year = 2024, month = 3, day = 1, hour = 0, minute = 0, second = 0, microsecond = 0\<rparr> \<and>
   dt_less \<lparr>year = 2024, month = 2, day = 29, hour = 0, minute = 0, second = 0, microsecond = 0\<rparr>
           \<lparr>year = 2024, month = 3, day = 1, hour = 0, minute = 0, second = 0, microsecond = 0\<rparr> \<and>
   Interval_next \<lparr>unit = Months, scalar = 1\<rparr>
     \<lparr>year = 2024, month = 2, day = 28, hour = 0, minute = 0, second = 0, microsecond = 0\<rparr> =
     Inr \<lparr>year = 2024, month = 3, day = 28, hour = 0, minute = 0, second = 0, microsecond = 0\<rparr> \<and>
   Interval_next \<lparr>unit = Months, scalar = 1\<rparr>
     \<lparr>year = 2024, month = 2, day = 29, hour = 0, minute = 0, second = 0, microsecond = 0\<rparr> =
     Inr \<lparr>year = 2024, month = 3, day = 29, hour = 0, minute = 0, second = 0, microsecond = 0\<rparr> \<and>
   dt_less \<lparr>year = 2024, month = 3, day = 28, hour = 0, minute = 0, second = 0, microsecond = 0\<rparr>
           \<lparr>year = 2024, month = 3, day = 29, hour = 0, minute = 0, second = 0, microsecond = 0\<rparr>"
proof -
  let ?a = "\<lparr>year = 2024, month = 2, day = 28, hour = 0, minute = 0, second = 0, microsecond = 0\<rparr>"
  let ?b = "\<lparr>year = 2024, month = 2, day = 29, hour = 0, minute = 0, second = 0, microsecond = 0\<rparr>"
  let ?c = "\<lparr>year = 2024, month = 3, day = 1, hour = 0, minute = 0, second = 0, microsecond = 0\<rparr>"
  let ?a' = "\<lparr>year = 2024, month = 3, day = 28, hour = 0, minute = 0, second = 0, microsecond = 0\<rparr>"
  let ?b' = "\<lparr>year = 2024, month = 3, day = 29, hour = 0, minute = 0, second = 0, microsecond = 0\<rparr>"
  have va: "valid_datetime ?a" and vb: "valid_datetime ?b" by code_simp+
  have lt: "dt_less ?a ?b" by (simp add: dt_less_def dt_key_def)
  have da: "Interval_next \<lparr>unit = Days, scalar = 1\<rparr> ?a = Inr ?b" by code_simp
  have db: "Interval_next \<lparr>unit = Days, scalar = 1\<rparr> ?b = Inr ?c" by code_simp
  have ma: "Interval_next \<lparr>unit = Months, scalar = 1\<rparr> ?a = Inr ?a'" by code_simp
  have mb: "Interval_next \<lparr>unit = Months, scalar = 1\<rparr> ?b = Inr ?b'" by code_simp
  have "dt_less ?b ?c"
    by (rule Interval_next_strict_mono [OF va vb lt da db]) simp
  moreover have "dt_less ?a' ?b'"
    by (rule Interval_next_strict_mono [OF va vb lt ma mb]) simp
  ultimately show ?thesis using va vb da db ma mb by simp
qed

text \<open>
  With clamping the order is not strict: Jan 30 and Jan 31 plus one month are both Feb 28.
\<close>

theorem Interval_next_clamping_breaks_order:
  "valid_datetime \<lparr>year = 2023, month = 1, day = 30, hour = 0, minute = 0, second = 0, microsecond = 0\<rparr> \<and>
   valid_datetime \<lparr>year = 2023, month = 1, day = 31, hour = 0, minute = 0, second = 0, microsecond = 0\<rparr> \<and>
   dt_less \<lparr>year = 2023, month = 1, day = 30, hour = 0, minute = 0, second = 0, microsecond = 0\<rparr>
           \<lparr>year = 2023, month = 1, day = 31, hour = 0, minute = 0, second = 0, microsecond = 0\<rparr> \<and>
   Interval_next \<lparr>unit = Months, scalar = 1\<rparr>
     \<lparr>year = 2023, month = 1, day = 30, hour = 0, minute = 0, second = 0, microsecond = 0\<rparr> =
     Inr \<lparr>year = 2023, month = 2, day = 28, hour = 0, minute = 0, second = 0, microsecond = 0\<rparr> \<and>
   Interval_next \<lparr>unit = Months, scalar = 1\<rparr>
     \<lparr>year = 2023, month = 1, day = 31, hour = 0, minute = 0, second = 0, microsecond = 0\<rparr> =
     Inr \<lparr>year = 2023, month = 2, day = 28, hour = 0, minute = 0, second = 0, microsecond = 0\<rparr> \<and>
   \<not> dt_less \<lparr>year = 2023, month = 2, day = 28, hour = 0, minute = 0, second = 0, microsecond = 0\<rparr>
             \<lparr>year = 2023, month = 2, day = 28, hour = 0, minute = 0, second = 0, microsecond = 0\<rparr>"
  by code_simp

subsection \<open>The constructor\<close>

lemma TemporalAccumulator_init_Inr:
  assumes "TemporalAccumulator_init td cats qs ms cal iv = Inr a"
  shows "as_list cats = []"
    and "(case cal of None \<Rightarrow> default_calendar td
            | Some c \<Rightarrow> (if series c \<noteq> [] then Inr c else default_calendar td)) = Inr (calendar a)"
    and "processed_data a = None"
  using assms unfolding TemporalAccumulator_init_def accumulate_def Let_def
  by (auto split: sum.splits list.splits)

text \<open>
  Claim C2, as the code has it. For every TemporalAccumulator constructed without an
  explicit calendar, the temporal dimension is not empty and the calendar is the one built
  from its first element as start and its last element as end: the dates from the first
  element on, a day apart, up to the last element. That is the range from the minimum to the
  maximum where the first element is the minimum and the last the maximum.
\<close>

theorem default_calendar_first_to_last:
  assumes "TemporalAccumulator_init td cats qs ms None iv = Inr a"
  shows "series td \<noteq> [] \<and>
         Calendar_init (hd (series td)) (last (series td)) = Inr (calendar a) \<and>
         (\<forall>s e. hd (series td) = PyDatetime s \<and> last (series td) = PyDatetime e \<longrightarrow>
            start (calendar a) = s \<and> end' (calendar a) = e \<and>
            generate_dates s e = Inr (map (\<lambda>v. case v of PyDatetime d \<Rightarrow> d) (series (calendar a))))"
proof -
  from TemporalAccumulator_init_Inr(2) [OF assms]
  have d: "default_calendar td = Inr (calendar a)" by simp
  then have ne: "series td \<noteq> []" and c: "Calendar_init (hd (series td)) (last (series td)) = Inr (calendar a)"
    unfolding default_calendar_def by (auto split: list.splits)
  have "start (calendar a) = s \<and> end' (calendar a) = e \<and>
        generate_dates s e = Inr (map (\<lambda>v. case v of PyDatetime d \<Rightarrow> d) (series (calendar a)))"
    if "hd (series td) = PyDatetime s \<and> last (series td) = PyDatetime e" for s e
  proof -
    from c that obtain dates where g: "generate_dates s e = Inr dates"
      and r: "calendar a = \<lparr>series = map PyDatetime dates, affinity = Temporal, start = s, end' = e\<rparr>"
      unfolding Calendar_init_def to_datetime_def by (auto split: sum.splits)
    have "map (\<lambda>v. case v of PyDatetime d \<Rightarrow> d) (map PyDatetime dates) = dates"
      by (induction dates) simp_all
    with g show ?thesis unfolding r by simp
  qed
  with ne c show ?thesis by blast
qed

theorem default_calendar_first_to_last_witness:
  "TemporalAccumulator_init unsorted_days NoSeries NoSeries None None None =
     Inr \<lparr>temporal_dimension = unsorted_days, catagories = [], quantities = [], static_maps = [],
          calendar = \<lparr>series = [], affinity = Temporal, start = jan 3, end' = jan 2\<rparr>,
          interval = \<lparr>unit = Days, scalar = 1\<rparr>, processed_data = None\<rparr> \<and>
   Calendar_init (PyDatetime (jan 3)) (PyDatetime (jan 2)) =
     Inr \<lparr>series = [], affinity = Temporal, start = jan 3, end' = jan 2\<rparr>"
proof -
  let ?a = "\<lparr>temporal_dimension = unsorted_days, catagories = [], quantities = [], static_maps = [],
          calendar = \<lparr>series = [], affinity = Temporal, start = jan 3, end' = jan 2\<rparr>,
          interval = \<lparr>unit = Days, scalar = 1\<rparr>, processed_data = None\<rparr>"
  have i: "TemporalAccumulator_init unsorted_days NoSeries NoSeries None None None = Inr ?a"
    by code_simp
  from default_calendar_first_to_last [OF i]
  have "Calendar_init (hd (series unsorted_days)) (last (series unsorted_days)) = Inr (calendar ?a)"
    by blast
  then have "Calendar_init (PyDatetime (jan 3)) (PyDatetime (jan 2)) =
     Inr \<lparr>series = [], affinity = Temporal, start = jan 3, end' = jan 2\<rparr>"
    by (simp add: unsorted_days_def)
  with i show ?thesis by simp
qed

text \<open>
  A temporal dimension that is not sorted: the calendar starts at the first element, which
  is the maximum, ends at the last, and is empty, where the range from minimum to maximum
  has three days.
\<close>

theorem default_calendar_unsorted:
  "map_sum id calendar (TemporalAccumulator_init unsorted_days NoSeries NoSeries None None None) =
     Inr \<lparr>series = [], affinity = Temporal, start = jan 3, end' = jan 2\<rparr> \<and>
   dt_less (jan 1) (jan 3) \<and> dt_less (jan 2) (jan 3) \<and>
   Calendar_init (PyDatetime (jan 1)) (PyDatetime (jan 3)) =
     Inr \<lparr>series = [PyDatetime (jan 1), PyDatetime (jan 2), PyDatetime (jan 3)],
          affinity = Temporal, start = jan 1, end' = jan 3\<rparr>"
  by code_simp

text \<open>
  Claim C7, as the code has it. The constructor never compares lengths: whether it
  completes, and with which error it fails, does not depend on the quantity series at all,
  and depends on the category series only through whether any is given. So series of
  unequal lengths are accepted wherever series of equal lengths are.
\<close>

theorem init_outcome_ignores_lengths:
  assumes "as_list c1 = [] \<longleftrightarrow> as_list c2 = []"
  shows "map_sum id (\<lambda>a. ()) (TemporalAccumulator_init td c1 q1 ms cal iv) =
         map_sum id (\<lambda>a. ()) (TemporalAccumulator_init td c2 q2 ms cal iv)"
  using assms unfolding TemporalAccumulator_init_def accumulate_def Let_def
  by (auto split: sum.splits list.splits)

theorem init_outcome_ignores_lengths_witness:
  "map_sum id (\<lambda>a. ())
     (TemporalAccumulator_init three_days NoSeries
        (OneSeries \<lparr>series = [PyInt 1, PyInt 2], affinity = Numerical\<rparr>) None None None) =
   map_sum id (\<lambda>a. ())
     (TemporalAccumulator_init three_days NoSeries
        (OneSeries \<lparr>series = [PyInt 1, PyInt 2, PyInt 3], affinity = Numerical\<rparr>) None None None)"
proof -
  have "as_list NoSeries = [] \<longleftrightarrow> as_list NoSeries = []" by simp
  then show ?thesis by (rule init_outcome_ignores_lengths)
qed

text \<open>
  A quantity series of two values beside a temporal dimension of three: construction
  completes.
\<close>

theorem unequal_lengths_accepted:
  "length (series three_days) = 3 \<and>
   TemporalAccumulator_init three_days NoSeries
     (OneSeries \<lparr>series = [PyInt 1, PyInt 2], affinity = Numerical\<rparr>) None None None =
   Inr \<lparr>temporal_dimension = three_days,
        catagories = [],
        quantities = [\<lparr>series = [PyInt 1, PyInt 2], affinity = Numerical\<rparr>],
        static_maps = [],
        calendar = \<lparr>series = [PyDatetime (jan 1), PyDatetime (jan 2), PyDatetime (jan 3)],
                     affinity = Temporal, start = jan 1, end' = jan 3\<rparr>,
        interval = \<lparr>unit = Days, scalar = 1\<rparr>,
        processed_data = None\<rparr>"
  by code_simp

text \<open>
  Claim C1 asks that, with no category dimension, the quantities 1, 2, 3 on three
  consecutive days and the CumulativeSum aggregation, \<^verbatim>\<open>accumulate\<close> produces the series
  1, 3, 6. On that input the construction completes and \<^verbatim>\<open>accumulate\<close> has returned
  \<^verbatim>\<open>None\<close>: no output series exists.
\<close>

theorem accumulate_returns_no_series:
  "TemporalAccumulator_init three_days NoSeries
     (OneSeries (DataSeries_init [PyInt 1, PyInt 2, PyInt 3] Numerical CumulativeSum))
     None None None =
   Inr \<lparr>temporal_dimension = three_days,
        catagories = [],
        quantities = [\<lparr>series = [PyInt 1, PyInt 2, PyInt 3], affinity = Numerical\<rparr>],
        static_maps = [],
        calendar = \<lparr>series = [PyDatetime (jan 1), PyDatetime (jan 2), PyDatetime (jan 3)],
                     affinity = Temporal, start = jan 1, end' = jan 3\<rparr>,
        interval = \<lparr>unit = Days, scalar = 1\<rparr>,
        processed_data = None\<rparr>"
  by code_simp

subsection \<open>Date strings\<close>

lemma digit_char_props:
  assumes "0 \<le> n" "n \<le> 9"
  shows "is_digit (digit_char n)" "digit_val (digit_char n) = n"
proof -
  from assms have "n = 0 \<or> n = 1 \<or> n = 2 \<or> n = 3 \<or> n = 4 \<or> n = 5 \<or> n = 6 \<or> n = 7
      \<or> n = 8 \<or> n = 9" by arith
  then show "is_digit (digit_char n)" "digit_val (digit_char n) = n"
    by (elim disjE; simp add: digit_char_def is_digit_def digit_val_def)+
qed

lemma pad2_props:
  assumes "0 \<le> n" "n \<le> 99"
  shows "\<exists>a b. pad2 n = [a, b] \<and> is_digit a \<and> is_digit b \<and> digits_val [a, b] = n"
proof -
  define q r where "q = n div 10" and "r = n mod 10"
  have e: "n = 10 * q + r" "0 \<le> r" "r \<le> 9" unfolding q_def r_def by simp_all
  with assms have q: "0 \<le> q" "q \<le> 9" by linarith+
  have "pad2 n = [digit_char q, digit_char r]" by (simp add: pad2_def q_def r_def)
  moreover have "digits_val [digit_char q, digit_char r] = n"
    using digit_char_props(2) [OF q] digit_char_props(2) [OF e(2,3)] e(1)
    by (simp add: digits_val_def)
  ultimately show ?thesis
    using digit_char_props(1) [OF q] digit_char_props(1) [OF e(2,3)] by blast
qed

lemma pad4_props:
  assumes "0 \<le> n" "n \<le> 9999"
  shows "\<exists>a b c d. pad4 n = [a, b, c, d] \<and> is_digit a \<and> is_digit b \<and> is_digit c \<and> is_digit d \<and>
           digits_val [a, b, c, d] = n"
proof -
  define n1 n2 n3 where "n1 = n div 10" and "n2 = n div 100" and "n3 = n div 1000"
  define r0 r1 r2 where "r0 = n mod 10" and "r1 = n1 mod 10" and "r2 = n2 mod 10"
  have "n div 100 = n div 10 div 10" "n div 1000 = n div 100 div 10"
    by (simp_all add: zdiv_zmult2_eq)
  then have e: "n = 10 * n1 + r0" "n1 = 10 * n2 + r1" "n2 = 10 * n3 + r2"
    unfolding n1_def n2_def n3_def r0_def r1_def r2_def by simp_all
  have b: "0 \<le> r0" "r0 \<le> 9" "0 \<le> r1" "r1 \<le> 9" "0 \<le> r2" "r2 \<le> 9"
    unfolding r0_def r1_def r2_def by simp_all
  with e assms have n3: "0 \<le> n3" "n3 \<le> 9" by linarith+
  have "pad4 n = [digit_char n3, digit_char r2, digit_char r1, digit_char r0]"
    by (simp add: pad4_def n1_def n2_def n3_def r0_def r1_def r2_def)
  moreover have "digits_val [digit_char n3, digit_char r2, digit_char r1, digit_char r0] = n"
    using digit_char_props(2) [OF n3] digit_char_props(2) [OF b(5,6)]
      digit_char_props(2) [OF b(3,4)] digit_char_props(2) [OF b(1,2)] e
    by (simp add: digits_val_def)
  ultimately show ?thesis
    using digit_char_props(1) [OF n3] digit_char_props(1) [OF b(5,6)]
      digit_char_props(1) [OF b(3,4)] digit_char_props(1) [OF b(1,2)] by blast
qed

lemma fromstr_iso_date:
  assumes "valid_date y m d"
  shows "fromstr (iso_date y m d) =
         Inr \<lparr>year = y, month = m, day = d, hour = 0, minute = 0, second = 0, microsecond = 0\<rparr>"
proof -
  from assms have "0 \<le> y" "y \<le> 9999" "0 \<le> m" "m \<le> 99" "0 \<le> d"
    using days_in_month_bounds [of m y] by (simp_all add: valid_date_def MINYEAR_def MAXYEAR_def)
  moreover from assms have "d \<le> 99"
    using days_in_month_bounds [of m y] by (simp add: valid_date_def)
  ultimately obtain a b c e f g h i where
    s: "pad4 y = [a, b, c, e]" "pad2 m = [f, g]" "pad2 d = [h, i]"
    and dg: "is_digit a" "is_digit b" "is_digit c" "is_digit e" "is_digit f" "is_digit g"
      "is_digit h" "is_digit i"
    and v: "digits_val [a, b, c, e] = y" "digits_val [f, g] = m" "digits_val [h, i] = d"
    using pad4_props [of y] pad2_props [of m] pad2_props [of d] by blast
  have z: "digits_val ''00'' = 0" by (simp add: digits_val_def digit_val_def)
  show ?thesis
    unfolding iso_date_def s fromstr_def
    using dg v z assms
    by (simp add: re_match_def DATE_PATTERN_def DATETIME_PATTERN_def at_end_def fromisoformat_def
        mk_datetime_def valid_time_def is_digit_def [of "CHR ''0''"])
qed

lemma fromstr_iso_datetime:
  assumes "valid_date y m d" "valid_time h mi s 0"
  shows "fromstr (iso_datetime y m d h mi s) =
         Inr \<lparr>year = y, month = m, day = d, hour = h, minute = mi, second = s, microsecond = 0\<rparr>"
proof -
  from assms(1) have "0 \<le> y" "y \<le> 9999" "0 \<le> m" "m \<le> 99" "0 \<le> d"
    using days_in_month_bounds [of m y] by (simp_all add: valid_date_def MINYEAR_def MAXYEAR_def)
  moreover from assms(1) have "d \<le> 99"
    using days_in_month_bounds [of m y] by (simp add: valid_date_def)
  moreover from assms(2) have "0 \<le> h" "h \<le> 99" "0 \<le> mi" "mi \<le> 99" "0 \<le> s" "s \<le> 99"
    by (simp_all add: valid_time_def)
  ultimately obtain c1 c2 c3 c4 c5 c6 c7 c8 c9 c10 c11 c12 c13 c14 where
    s: "pad4 y = [c1, c2, c3, c4]" "pad2 m = [c5, c6]" "pad2 d = [c7, c8]"
       "pad2 h = [c9, c10]" "pad2 mi = [c11, c12]" "pad2 s = [c13, c14]"
    and dg: "is_digit c1" "is_digit c2" "is_digit c3" "is_digit c4" "is_digit c5" "is_digit c6"
      "is_digit c7" "is_digit c8" "is_digit c9" "is_digit c10" "is_digit c11" "is_digit c12"
      "is_digit c13" "is_digit c14"
    and v: "digits_val [c1, c2, c3, c4] = y" "digits_val [c5, c6] = m" "digits_val [c7, c8] = d"
      "digits_val [c9, c10] = h" "digits_val [c11, c12] = mi" "digits_val [c13, c14] = s"
    using pad4_props [of y] pad2_props [of m] pad2_props [of d]
      pad2_props [of h] pad2_props [of mi] pad2_props [of s] by blast
  show ?thesis
    unfolding iso_datetime_def iso_date_def s fromstr_def
    using dg v assms
    by (simp add: re_match_def DATE_PATTERN_def DATETIME_PATTERN_def at_end_def fromisoformat_def
        mk_datetime_def)
qed

lemma fromstr_no_match:
  assumes "\<not> re_match DATE_PATTERN str" "\<not> re_match DATETIME_PATTERN str"
  shows "fromstr str = Inl InvalidDateFormat"
  using assms by (simp add: fromstr_def)

lemma fromstr_outcomes:
  "fromstr str = Inl InvalidDateFormat \<or> fromstr str = Inl DateValueError \<or>
   (\<exists>dt. fromstr str = Inr dt \<and> valid_datetime dt)"
  unfolding fromstr_def fromisoformat_def mk_datetime_def valid_datetime_def
  by (auto split: if_splits)

lemma match_prefix_append_pat:
  "match_prefix (ps @ qs) s =
     (case match_prefix ps s of None \<Rightarrow> None | Some r \<Rightarrow> match_prefix qs r)"
  by (induction ps s rule: match_prefix.induct) auto

lemma match_prefix_length:
  "match_prefix ps s = Some r \<Longrightarrow> length s = length ps + length r"
  by (induction ps s rule: match_prefix.induct) (auto split: if_splits)

lemma match_prefix_append_str:
  "match_prefix ps s = Some r \<Longrightarrow> match_prefix ps (s @ t) = Some (r @ t)"
  by (induction ps s rule: match_prefix.induct) (auto split: if_splits)

lemma mk_datetime_midnight:
  "mk_datetime y m d 0 0 0 0 =
     (if valid_date y m d
      then Inr \<lparr>year = y, month = m, day = d, hour = 0, minute = 0, second = 0, microsecond = 0\<rparr>
      else Inl DateValueError)"
  by (simp add: mk_datetime_def valid_time_def)

lemma length_DATE_PATTERN: "length DATE_PATTERN = 10"
  by (simp add: DATE_PATTERN_def)

lemma length_DATETIME_PATTERN: "length DATETIME_PATTERN = 19"
  by (simp add: DATETIME_PATTERN_def DATE_PATTERN_def)

lemma fromstr_date_match:
  assumes "re_match DATE_PATTERN str"
  shows "fromstr str =
     (if length str = 10 \<and> valid_date (number_at str 0 4) (number_at str 5 2) (number_at str 8 2)
      then Inr \<lparr>year = number_at str 0 4, month = number_at str 5 2, day = number_at str 8 2,
                hour = 0, minute = 0, second = 0, microsecond = 0\<rparr>
      else Inl DateValueError)"
proof -
  let ?t = "''T00:00:00''"
  let ?time = "[Lit CHR ''T'', Digit, Digit, Lit CHR '':'', Digit, Digit, Lit CHR '':'', Digit, Digit]"
  from assms obtain rest where m: "match_prefix DATE_PATTERN str = Some rest"
    and r: "rest = [] \<or> rest = [CHR 0x0A]"
    unfolding re_match_def at_end_def by (auto split: option.splits)
  have len: "length str = 10 + length rest"
    using match_prefix_length [OF m] by (simp add: length_DATE_PATTERN)
  have "match_prefix DATE_PATTERN (str @ ?t) = Some (rest @ ?t)"
    using m by (rule match_prefix_append_str)
  then have dt: "match_prefix DATETIME_PATTERN (str @ ?t) = match_prefix ?time (rest @ ?t)"
    unfolding DATETIME_PATTERN_def match_prefix_append_pat by simp
  have fs: "fromstr str = fromisoformat (str @ ?t)" unfolding fromstr_def using assms by simp
  from r show ?thesis
  proof
    assume e: "rest = []"
    have "match_prefix ?time ?t = Some []" by (simp add: is_digit_def)
    with dt e have "match_prefix DATETIME_PATTERN (str @ ?t) = Some []" by simp
    moreover from len e have l: "length str = 10" by simp
    moreover have "digits_val ''00'' = 0" by (simp add: digits_val_def digit_val_def)
    ultimately have "fromisoformat (str @ ?t) =
        mk_datetime (number_at str 0 4) (number_at str 5 2) (number_at str 8 2) 0 0 0 0"
      unfolding fromisoformat_def number_at_def by simp
    with fs l show ?thesis by (simp add: mk_datetime_midnight)
  next
    assume e: "rest = [CHR 0x0A]"
    have "match_prefix ?time (CHR 0x0A # ?t) = None" by simp
    with dt e have "match_prefix DATETIME_PATTERN (str @ ?t) = None" by simp
    then have "fromisoformat (str @ ?t) = Inl DateValueError"
      unfolding fromisoformat_def by simp
    moreover from len e have "length str \<noteq> 10" by simp
    ultimately show ?thesis using fs by simp
  qed
qed

lemma fromstr_datetime_match:
  assumes "re_match DATETIME_PATTERN str"
  shows "fromstr str =
     (if length str = 19 \<and>
         valid_date (number_at str 0 4) (number_at str 5 2) (number_at str 8 2) \<and>
         valid_time (number_at str 11 2) (number_at str 14 2) (number_at str 17 2) 0
      then Inr \<lparr>year = number_at str 0 4, month = number_at str 5 2, day = number_at str 8 2,
                hour = number_at str 11 2, minute = number_at str 14 2,
                second = number_at str 17 2, microsecond = 0\<rparr>
      else Inl DateValueError)"
proof -
  let ?time = "[Lit CHR ''T'', Digit, Digit, Lit CHR '':'', Digit, Digit, Lit CHR '':'', Digit, Digit]"
  from assms obtain rest where m: "match_prefix DATETIME_PATTERN str = Some rest"
    and r: "rest = [] \<or> rest = [CHR 0x0A]"
    unfolding re_match_def at_end_def by (auto split: option.splits)
  have len: "length str = 19 + length rest"
    using match_prefix_length [OF m] by (simp add: length_DATETIME_PATTERN)
  from m obtain r1 where d: "match_prefix DATE_PATTERN str = Some r1"
    and t: "match_prefix ?time r1 = Some rest"
    unfolding DATETIME_PATTERN_def match_prefix_append_pat by (auto split: option.splits)
  from t have "r1 \<noteq> []" "r1 \<noteq> [CHR 0x0A]" by auto
  with d have nd: "\<not> re_match DATE_PATTERN str" unfolding re_match_def at_end_def by simp
  have fs: "fromstr str = fromisoformat str" unfolding fromstr_def using assms nd by simp
  from r show ?thesis
  proof
    assume e: "rest = []"
    with len have l: "length str = 19" by simp
    from m e have "fromisoformat str =
        mk_datetime (number_at str 0 4) (number_at str 5 2) (number_at str 8 2)
          (number_at str 11 2) (number_at str 14 2) (number_at str 17 2) 0"
      unfolding fromisoformat_def number_at_def by simp
    with fs l show ?thesis by (simp add: mk_datetime_def)
  next
    assume e: "rest = [CHR 0x0A]"
    with m have "fromisoformat str = Inl DateValueError" unfolding fromisoformat_def by simp
    moreover from len e have "length str \<noteq> 19" by simp
    ultimately show ?thesis using fs by simp
  qed
qed

text \<open>
  Claim C8, as the code has it. The conversion of a string argument succeeds for every
  string \<^verbatim>\<open>YYYY-MM-DD\<close> or \<^verbatim>\<open>YYYY-MM-DDTHH:MM:SS\<close> that writes a date and time of the
  calendar (year 1 to 9999, month 1 to 12, a day of that month, hour below 24, minute and
  second below 60). Every string that matches neither pattern fails with the
  \<^verbatim>\<open>ValueError\<close> of line 149, and so does the construction of a calendar from it. A string
  that matches a pattern converts exactly when it has the 10 or 19 characters of the form
  and nothing after them, and the numbers it writes are a date and a time of the calendar;
  the result then has exactly these numbers as its fields. Every other string that matches
  a pattern fails inside the date library.
\<close>

theorem fromstr_accepts_real_dates:
  "(valid_date y m d \<longrightarrow>
      fromstr (iso_date y m d) =
        Inr \<lparr>year = y, month = m, day = d, hour = 0, minute = 0, second = 0, microsecond = 0\<rparr>) \<and>
   (valid_date y m d \<and> valid_time h mi s 0 \<longrightarrow>
      fromstr (iso_datetime y m d h mi s) =
        Inr \<lparr>year = y, month = m, day = d, hour = h, minute = mi, second = s, microsecond = 0\<rparr>) \<and>
   (\<not> re_match DATE_PATTERN str \<and> \<not> re_match DATETIME_PATTERN str \<longrightarrow>
      fromstr str = Inl InvalidDateFormat \<and>
      Calendar_init (PyStr str) end_arg = Inl InvalidDateFormat) \<and>
   (re_match DATE_PATTERN str \<longrightarrow>
      fromstr str =
        (if length str = 10 \<and>
            valid_date (number_at str 0 4) (number_at str 5 2) (number_at str 8 2)
         then Inr \<lparr>year = number_at str 0 4, month = number_at str 5 2, day = number_at str 8 2,
                   hour = 0, minute = 0, second = 0, microsecond = 0\<rparr>
         else Inl DateValueError)) \<and>
   (re_match DATETIME_PATTERN str \<longrightarrow>
      fromstr str =
        (if length str = 19 \<and>
            valid_date (number_at str 0 4) (number_at str 5 2) (number_at str 8 2) \<and>
            valid_time (number_at str 11 2) (number_at str 14 2) (number_at str 17 2) 0
         then Inr \<lparr>year = number_at str 0 4, month = number_at str 5 2, day = number_at str 8 2,
                   hour = number_at str 11 2, minute = number_at str 14 2,
                   second = number_at str 17 2, microsecond = 0\<rparr>
         else Inl DateValueError)) \<and>
   (re_match DATE_PATTERN str \<or> re_match DATETIME_PATTERN str \<longrightarrow>
      fromstr str = Inl DateValueError \<or> (\<exists>dt. fromstr str = Inr dt \<and> valid_datetime dt))"
proof (intro conjI impI)
  assume "valid_date y m d"
  then show "fromstr (iso_date y m d) =
        Inr \<lparr>year = y, month = m, day = d, hour = 0, minute = 0, second = 0, microsecond = 0\<rparr>"
    by (rule fromstr_iso_date)
next
  assume "valid_date y m d \<and> valid_time h mi s 0"
  then show "fromstr (iso_datetime y m d h mi s) =
        Inr \<lparr>year = y, month = m, day = d, hour = h, minute = mi, second = s, microsecond = 0\<rparr>"
    by (simp add: fromstr_iso_datetime)
next
  assume a: "\<not> re_match DATE_PATTERN str \<and> \<not> re_match DATETIME_PATTERN str"
  then show "fromstr str = Inl InvalidDateFormat" by (simp add: fromstr_no_match)
  with a show "Calendar_init (PyStr str) end_arg = Inl InvalidDateFormat"
    by (simp add: Calendar_init_def to_datetime_def)
next
  assume "re_match DATE_PATTERN str"
  then show "fromstr str =
        (if length str = 10 \<and>
            valid_date (number_at str 0 4) (number_at str 5 2) (number_at str 8 2)
         then Inr \<lparr>year = number_at str 0 4, month = number_at str 5 2, day = number_at str 8 2,
                   hour = 0, minute = 0, second = 0, microsecond = 0\<rparr>
         else Inl DateValueError)"
    by (rule fromstr_date_match)
next
  assume "re_match DATETIME_PATTERN str"
  then show "fromstr str =
        (if length str = 19 \<and>
            valid_date (number_at str 0 4) (number_at str 5 2) (number_at str 8 2) \<and>
            valid_time (number_at str 11 2) (number_at str 14 2) (number_at str 17 2) 0
         then Inr \<lparr>year = number_at str 0 4, month = number_at str 5 2, day = number_at str 8 2,
                   hour = number_at str 11 2, minute = number_at str 14 2,
                   second = number_at str 17 2, microsecond = 0\<rparr>
         else Inl DateValueError)"
    by (rule fromstr_datetime_match)
next
  assume a: "re_match DATE_PATTERN str \<or> re_match DATETIME_PATTERN str"
  then have "fromstr str \<noteq> Inl InvalidDateFormat"
    unfolding fromstr_def fromisoformat_def mk_datetime_def by (auto split: if_splits)
  with fromstr_outcomes [of str]
  show "fromstr str = Inl DateValueError \<or> (\<exists>dt. fromstr str = Inr dt \<and> valid_datetime dt)"
    by blast
qed

theorem fromstr_accepts_real_dates_witness:
  "iso_date 2025 1 1 = ''2025-01-01'' \<and>
   fromstr ''2025-01-01'' =
     Inr \<lparr>year = 2025, month = 1, day = 1, hour = 0, minute = 0, second = 0, microsecond = 0\<rparr> \<and>
   iso_datetime 2025 3 5 10 20 30 = ''2025-03-05T10:20:30'' \<and>
   fromstr ''2025-03-05T10:20:30'' =
     Inr \<lparr>year = 2025, month = 3, day = 5, hour = 10, minute = 20, second = 30, microsecond = 0\<rparr> \<and>
   fromstr ''2025-1-1'' = Inl InvalidDateFormat \<and>
   fromstr ''2025-13-01'' = Inl DateValueError \<and>
   fromstr ''2025-03-05T24:00:00'' = Inl DateValueError"
proof -
  have v: "valid_date 2025 1 1" "valid_date 2025 3 5" "valid_time 10 20 30 0" by code_simp+
  have f: "iso_date 2025 1 1 = ''2025-01-01''" "iso_datetime 2025 3 5 10 20 30 = ''2025-03-05T10:20:30''"
    by code_simp+
  have n: "\<not> re_match DATE_PATTERN ''2025-1-1''" "\<not> re_match DATETIME_PATTERN ''2025-1-1''"
    by code_simp+
  have md: "re_match DATE_PATTERN ''2025-13-01''" by code_simp
  have nd: "\<not> valid_date (number_at ''2025-13-01'' 0 4) (number_at ''2025-13-01'' 5 2)
                 (number_at ''2025-13-01'' 8 2)"
    by code_simp
  have mt: "re_match DATETIME_PATTERN ''2025-03-05T24:00:00''" by code_simp
  have nt: "\<not> valid_time (number_at ''2025-03-05T24:00:00'' 11 2)
                 (number_at ''2025-03-05T24:00:00'' 14 2) (number_at ''2025-03-05T24:00:00'' 17 2) 0"
    by code_simp
  from fromstr_accepts_real_dates [of 2025 1 1 0 0 0 "''2025-1-1''" "PyNone"] v(1) f(1) n
  have "fromstr ''2025-01-01'' =
     Inr \<lparr>year = 2025, month = 1, day = 1, hour = 0, minute = 0, second = 0, microsecond = 0\<rparr>"
    "fromstr ''2025-1-1'' = Inl InvalidDateFormat"
    by simp_all
  moreover from fromstr_accepts_real_dates [of 2025 3 5 10 20 30 "''2025-13-01''" "PyNone"] v(2,3) f(2)
  have "fromstr ''2025-03-05T10:20:30'' =
     Inr \<lparr>year = 2025, month = 3, day = 5, hour = 10, minute = 20, second = 30, microsecond = 0\<rparr>"
    by simp
  moreover from fromstr_accepts_real_dates [of 2025 3 5 10 20 30 "''2025-13-01''" "PyNone"] md nd
  have "fromstr ''2025-13-01'' = Inl DateValueError"
    by (simp del: valid_date_def)
  moreover from fromstr_accepts_real_dates [of 2025 3 5 10 20 30 "''2025-03-05T24:00:00''" "PyNone"] mt nt
  have "fromstr ''2025-03-05T24:00:00'' = Inl DateValueError"
    by simp
  ultimately show ?thesis using f by simp
qed

text \<open>
  A string of the form \<^verbatim>\<open>YYYY-MM-DD\<close> that names no day of the calendar is refused by
  the date library; so is a date followed by a newline, which the pattern lets through.
\<close>

theorem fromstr_rejects_impossible_date:
  "re_match DATE_PATTERN ''2025-02-30'' \<and>
   fromstr ''2025-02-30'' = Inl DateValueError \<and>
   Calendar_init (PyStr ''2025-02-30'') (PyStr ''2025-03-05'') = Inl DateValueError \<and>
   re_match DATE_PATTERN (''2025-01-01'' @ [CHR 0x0A]) \<and>
   fromstr (''2025-01-01'' @ [CHR 0x0A]) = Inl DateValueError"
  by code_simp

subsection \<open>The grouping\<close>

lemma update_snoc_same:
  "k \<notin> fst ` set al \<Longrightarrow> AList.update k v (al @ [(k, w)]) = al @ [(k, v)]"
  by (induction al) auto

lemma map_of_no_rows:
  "no_rows (Dict kvs) \<Longrightarrow> map_of kvs k = Some c \<Longrightarrow> no_rows c"
  by (force simp: list_all_iff dest!: map_of_SomeD)

lemma descend_insert_path:
  assumes "no_rows n" "\<forall>c \<in> set cs. i < length (series c)"
  shows "descend cs i n = Inr (insert_path (map (\<lambda>c. series c ! i) cs) n)"
  using assms
proof (induction cs arbitrary: n)
  case Nil
  then show ?case by simp
next
  case (Cons sc rest)
  from Cons.prems(1) obtain prev where n: "n = Dict prev" by (cases n) auto
  let ?v = "series sc ! i"
  from Cons.prems(2) have i: "i < length (series sc)" and r: "\<forall>c \<in> set rest. i < length (series c)"
    by simp_all
  show ?case
  proof (cases "map_of prev ?v")
    case None
    then have notin: "?v \<notin> fst ` set prev" by (simp add: map_of_eq_None_iff)
    have "descend rest i (Dict []) = Inr (insert_path (map (\<lambda>c. series c ! i) rest) (Dict []))"
      using r by (intro Cons.IH) simp_all
    moreover have "map_of (prev @ [(?v, Dict [])]) ?v = Some (Dict [])"
      using None by (simp add: map_add_def)
    ultimately show ?thesis unfolding n using None i
      by (simp add: Let_def update_snoc_same [OF notin] del: map_of_append)
  next
    case (Some child)
    with Cons.prems(1) have "no_rows child" unfolding n by (rule map_of_no_rows)
    then have "descend rest i child = Inr (insert_path (map (\<lambda>c. series c ! i) rest) child)"
      using r by (intro Cons.IH)
    with Some i show ?thesis unfolding n by (simp add: Let_def)
  qed
qed

lemma insert_path_Dict:
  "\<exists>kvs'. insert_path (k # ks) (Dict kvs) = Dict kvs'"
  by (cases "map_of kvs k") simp_all

lemma categorize_rows_step:
  assumes "cats \<noteq> []" "i < length (series (hd cats))" "v = series (hd cats) ! i"
  shows "categorize_rows cats ((i, v) # rows) m =
     (case descend cats i (Dict m) of
        Inl e \<Rightarrow> Inl e
      | Inr n \<Rightarrow> (case n of Dict m' \<Rightarrow> categorize_rows cats rows m' | Rows xs \<Rightarrow> Inl TypeError))"
proof -
  from assms(1) obtain c0 rest where cats: "cats = c0 # rest" by (cases cats) auto
  from assms(2,3) have i: "i < length (series c0)" and v: "series c0 ! i = v" unfolding cats by simp_all
  show ?thesis
  proof (cases "map_of m v")
    case None
    then have notin: "v \<notin> fst ` set m" by (simp add: map_of_eq_None_iff)
    have mm: "map_of (m @ [(v, Dict [])]) v = Some (Dict [])"
      using None by (simp add: map_add_def)
    show ?thesis
    proof (cases rest)
      case Nil
      with None mm i v show ?thesis
        unfolding cats
        by (simp add: Let_def update_snoc_same [OF notin] del: map_of_append)
    next
      case (Cons c1 rest')
      with None mm i v show ?thesis
        unfolding cats
        by (simp add: Let_def del: map_of_append descend.simps(2) split: sum.splits)
          (simp add: Let_def del: map_of_append split: sum.splits)
    qed
  next
    case (Some prev)
    show ?thesis
    proof (cases rest)
      case Nil
      with Some i v show ?thesis
        unfolding cats by (simp add: Let_def update_triv)
    next
      case (Cons c1 rest')
      with Some i v show ?thesis
        unfolding cats
        by (simp add: Let_def del: descend.simps(2) split: sum.splits)
          (simp add: Let_def split: sum.splits)
    qed
  qed
qed

lemma no_rows_insert_path:
  "no_rows n \<Longrightarrow> no_rows (insert_path p n)"
proof (induction p arbitrary: n)
  case Nil
  then show ?case by simp
next
  case (Cons k ks)
  from Cons.prems obtain kvs where n: "n = Dict kvs" by (cases n) auto
  show ?case
  proof (cases "map_of kvs k")
    case None
    have "no_rows (insert_path ks (Dict []))" by (rule Cons.IH) simp
    with None Cons.prems show ?thesis unfolding n by simp
  next
    case (Some child)
    with Cons.prems have "no_rows child" unfolding n by (rule map_of_no_rows)
    then have c: "no_rows (insert_path ks child)" by (rule Cons.IH)
    have "list_all (\<lambda>kv. no_rows (snd kv)) (AList.update k w kvs)"
      if "no_rows w" "list_all (\<lambda>kv. no_rows (snd kv)) kvs" for w
      using that by (induction kvs) auto
    with c Cons.prems Some show ?thesis unfolding n by simp
  qed
qed

lemma categorize_rows_fold:
  assumes "cats \<noteq> []" "\<forall>c \<in> set cats. length (series c) = n" "k \<le> n" "no_rows (Dict m)"
  shows "categorize_rows cats (enumerate k (drop k (series (hd cats)))) m =
         (case fold insert_path (map (row_path cats) [k..<n]) (Dict m) of
            Dict m' \<Rightarrow> Inr m' | Rows xs \<Rightarrow> Inl TypeError)"
  using assms(3,4)
proof (induction "n - k" arbitrary: k m)
  case 0
  with assms(2) assms(1) have "drop k (series (hd cats)) = []" by simp
  with 0 show ?case by simp
next
  case (Suc d)
  from Suc.hyps(2) have kn: "k < n" by simp
  from assms(1,2) have len: "length (series (hd cats)) = n" by simp
  with kn have dr: "drop k (series (hd cats)) = series (hd cats) ! k # drop (Suc k) (series (hd cats))"
    by (simp add: Cons_nth_drop_Suc)
  have up: "[k..<n] = k # [Suc k..<n]" using kn by (simp add: upt_rec)
  have all: "\<forall>c \<in> set cats. k < length (series c)" using assms(2) kn by simp
  have d: "descend cats k (Dict m) = Inr (insert_path (row_path cats k) (Dict m))"
    unfolding row_path_def using Suc.prems(2) all by (rule descend_insert_path)
  from assms(1) obtain c0 rest where "cats = c0 # rest" by (cases cats) auto
  then obtain m' where m': "insert_path (row_path cats k) (Dict m) = Dict m'"
    unfolding row_path_def using insert_path_Dict by fastforce
  have nr: "no_rows (Dict m')" using no_rows_insert_path [OF Suc.prems(2)] m' by metis
  have "categorize_rows cats (enumerate k (drop k (series (hd cats)))) m =
        categorize_rows cats (enumerate (Suc k) (drop (Suc k) (series (hd cats)))) m'"
    unfolding dr enumerate_simps
    using categorize_rows_step [OF assms(1), of k "series (hd cats) ! k"] kn len d m' by simp
  also have "\<dots> = (case fold insert_path (map (row_path cats) [Suc k..<n]) (Dict m') of
            Dict m' \<Rightarrow> Inr m' | Rows xs \<Rightarrow> Inl TypeError)"
    using Suc.hyps(2) kn nr by (intro Suc.hyps(1)) simp_all
  finally show ?case unfolding up using m' by simp
qed

lemma fold_insert_path_Dict:
  "\<exists>m'. fold insert_path ps (Dict m) = Dict m'"
proof (induction ps arbitrary: m)
  case Nil
  then show ?case by simp
next
  case (Cons p ps)
  have "\<exists>m'. insert_path p (Dict m) = Dict m'"
  proof (cases p)
    case Nil
    then show ?thesis by simp
  next
    case (Cons k ks)
    then show ?thesis using insert_path_Dict [of k ks m] by simp
  qed
  then show ?case using Cons.IH by auto
qed

lemma categorize_eq:
  assumes "catagories self \<noteq> []" "\<forall>c \<in> set (catagories self). length (series c) = n"
  shows "categorize self = Inr (fold insert_path (row_paths (catagories self)) (Dict []))"
proof -
  from assms have len: "length (series (hd (catagories self))) = n" by simp
  obtain m' where m': "fold insert_path (map (row_path (catagories self)) [0..<n]) (Dict []) = Dict m'"
    using fold_insert_path_Dict by blast
  have "categorize_rows (catagories self) (enumerate 0 (drop 0 (series (hd (catagories self))))) [] =
      (case fold insert_path (map (row_path (catagories self)) [0..<n]) (Dict []) of
            Dict m' \<Rightarrow> Inr m' | Rows xs \<Rightarrow> Inl TypeError)"
    using assms by (intro categorize_rows_fold) simp_all
  with m' assms(1) show ?thesis
    unfolding categorize_def row_paths_def len by simp
qed

lemma lookup_path_empty_Dict:
  "lookup_path ks (Dict []) = (if ks = [] then Some (Dict []) else None)"
  by (cases ks) simp_all

lemma lookup_path_no_rows:
  "no_rows t \<Longrightarrow> lookup_path p t = Some n \<Longrightarrow> no_rows n"
proof (induction p arbitrary: t)
  case Nil
  then show ?case by simp
next
  case (Cons k ks)
  from Cons.prems(1) obtain kvs where t: "t = Dict kvs" by (cases t) auto
  from Cons.prems(2) obtain child where c: "map_of kvs k = Some child" "lookup_path ks child = Some n"
    unfolding t by (auto split: option.splits)
  from Cons.prems(1) c(1) have "no_rows child" unfolding t by (rule map_of_no_rows)
  then show ?case using c(2) by (rule Cons.IH)
qed

lemma lookup_insert_path:
  assumes "no_rows t"
  shows "lookup_path p (insert_path q t) =
     (if length p \<le> length q \<and> take (length p) q = p
      then Some (insert_path (drop (length p) q)
                   (case lookup_path p t of Some n \<Rightarrow> n | None \<Rightarrow> Dict []))
      else lookup_path p t)"
  using assms
proof (induction p arbitrary: q t)
  case Nil
  then show ?case by simp
next
  case (Cons k ks)
  from Cons.prems obtain kvs where t: "t = Dict kvs" by (cases t) auto
  show ?case
  proof (cases q)
    case Nil
    then show ?thesis by simp
  next
    case q: (Cons k' qs)
    show ?thesis
    proof (cases "map_of kvs k'")
      case None
      have e: "no_rows (Dict [])" by simp
      note IH = Cons.IH [OF e, of qs]
      show ?thesis
      proof (cases "k = k'")
        case True
        with None have "map_of (kvs @ [(k', insert_path qs (Dict []))]) k = Some (insert_path qs (Dict []))"
          by (simp add: map_add_def)
        with None True show ?thesis
          unfolding t q by (simp add: IH lookup_path_empty_Dict del: map_of_append)
      next
        case False
        then have "map_of (kvs @ [(k', insert_path qs (Dict []))]) k = map_of kvs k"
          by (simp add: map_add_def split: option.splits)
        with None False show ?thesis
          unfolding t q by (simp del: map_of_append)
      qed
    next
      case (Some child)
      with Cons.prems have nc: "no_rows child" unfolding t by (rule map_of_no_rows)
      note IH = Cons.IH [OF nc, of qs]
      show ?thesis
      proof (cases "k = k'")
        case True
        with Some show ?thesis
          unfolding t q by (simp add: IH update_conv')
      next
        case False
        with Some show ?thesis
          unfolding t q by (simp add: update_conv')
      qed
    qed
  qed
qed

lemma keys_insert_path:
  "keys (insert_path (k # ks) (Dict kvs)) =
     (if k \<in> set (keys (Dict kvs)) then keys (Dict kvs) else keys (Dict kvs) @ [k])"
proof (cases "map_of kvs k")
  case None
  then have "k \<notin> fst ` set kvs" by (simp add: map_of_eq_None_iff)
  with None show ?thesis by simp
next
  case (Some child)
  then have "k \<in> fst ` set kvs" by (metis map_of_eq_None_iff option.distinct(1))
  with Some show ?thesis by (simp add: update_keys)
qed

lemma set_first_seen [simp]: "set (first_seen xs) = set xs"
  by (induction xs) auto

lemma first_seen_snoc:
  "first_seen (xs @ [x]) = (if x \<in> set xs then first_seen xs else first_seen xs @ [x])"
  by (induction xs) auto

lemma distinct_first_seen: "distinct (first_seen xs)"
  by (induction xs) (auto simp: distinct_removeAll)

lemma fold_insert_path_invariant:
  "no_rows (fold insert_path ps (Dict [])) \<and>
   (\<forall>p. (lookup_path p (fold insert_path ps (Dict [])) = None) =
           (p \<noteq> [] \<and> \<not> (\<exists>q \<in> set ps. extends q p))) \<and>
   (\<forall>p n. lookup_path p (fold insert_path ps (Dict [])) = Some n \<longrightarrow> keys n = keys_under ps p)"
proof (induction ps rule: rev_induct)
  case Nil
  show ?case by (auto simp: lookup_path_empty_Dict keys_under_def)
next
  case (snoc q ps)
  define T where "T = fold insert_path ps (Dict [])"
  from snoc have nr: "no_rows T"
    and none: "\<And>p. (lookup_path p T = None) = (p \<noteq> [] \<and> \<not> (\<exists>q \<in> set ps. extends q p))"
    and ks: "\<And>p n. lookup_path p T = Some n \<Longrightarrow> keys n = keys_under ps p"
    unfolding T_def by blast+
  have T': "fold insert_path (ps @ [q]) (Dict []) = insert_path q T" unfolding T_def by simp
  have look: "lookup_path p (insert_path q T) =
     (if extends q p
      then Some (insert_path (drop (length p) q)
                   (case lookup_path p T of Some n \<Rightarrow> n | None \<Rightarrow> Dict []))
      else lookup_path p T)" for p
    unfolding extends_def using nr by (rule lookup_insert_path)
  have a: "no_rows (insert_path q T)" using nr by (rule no_rows_insert_path)
  have b: "(lookup_path p (insert_path q T) = None) =
           (p \<noteq> [] \<and> \<not> (\<exists>q' \<in> set (ps @ [q]). extends q' p))" for p
  proof (cases "extends q p")
    case True
    then show ?thesis unfolding look by auto
  next
    case False
    then show ?thesis unfolding look using none [of p] by auto
  qed
  have c: "keys n = keys_under (ps @ [q]) p" if l: "lookup_path p (insert_path q T) = Some n" for p n
  proof (cases "extends q p")
    case False
    then have "keys_under (ps @ [q]) p = keys_under ps p"
      unfolding keys_under_def extends_def by auto
    with False l show ?thesis unfolding look by (simp add: ks)
  next
    case True
    define n0 where "n0 = (case lookup_path p T of Some n \<Rightarrow> n | None \<Rightarrow> Dict [])"
    define r where "r = drop (length p) q"
    from True l have n: "n = insert_path r n0" unfolding look n0_def r_def by simp
    have n0: "no_rows n0 \<and> keys n0 = keys_under ps p"
    proof (cases "lookup_path p T")
      case None
      then have "p \<noteq> []" "\<not> (\<exists>q \<in> set ps. extends q p)" using none by blast+
      then have "filter (\<lambda>q. length p < length q \<and> take (length p) q = p) ps = []"
        unfolding extends_def by (auto simp: filter_empty_conv)
      with None show ?thesis unfolding n0_def keys_under_def by simp
    next
      case (Some m)
      with nr have "no_rows m" by (rule lookup_path_no_rows)
      with Some ks [OF Some] show ?thesis unfolding n0_def by simp
    qed
    then obtain kvs where kvs: "n0 = Dict kvs" by (cases n0) auto
    show ?thesis
    proof (cases r)
      case Nil
      then have "length q \<le> length p" unfolding r_def by simp
      then have "keys_under (ps @ [q]) p = keys_under ps p"
        unfolding keys_under_def by auto
      with Nil n n0 show ?thesis by simp
    next
      case (Cons k r')
      then have lt: "length p < length q" unfolding r_def by (cases "length p < length q") auto
      with Cons have k: "k = q ! length p" unfolding r_def by (metis Cons_nth_drop_Suc list.inject)
      from True lt have "keys_under (ps @ [q]) p =
           first_seen (map (\<lambda>q. q ! length p)
             (filter (\<lambda>q. length p < length q \<and> take (length p) q = p) ps) @ [k])"
        unfolding keys_under_def extends_def k by simp
      also have "\<dots> = (if k \<in> set (keys_under ps p) then keys_under ps p else keys_under ps p @ [k])"
        unfolding keys_under_def by (simp add: first_seen_snoc)
      finally show ?thesis
        unfolding n Cons kvs keys_insert_path using n0 kvs by simp
    qed
  qed
  show ?case unfolding T' using a b c by blast
qed

lemma foldr_max_acc:
  "foldr (\<lambda>kv acc. max (g kv) acc) xs (a::nat) = max (foldr (\<lambda>kv acc. max (g kv) acc) xs 0) a"
  by (induction xs) auto

lemma depth_snoc:
  "depth (Dict (kvs @ [(k, c)])) = max (depth (Dict kvs)) (Suc (depth c))"
  using foldr_max_acc [of "\<lambda>kv. Suc (depth (snd kv))" kvs "Suc (depth c)"] by simp

lemma depth_child:
  "map_of kvs k = Some c \<Longrightarrow> Suc (depth c) \<le> depth (Dict kvs)"
  by (induction kvs) (auto split: if_splits)

lemma depth_update:
  "map_of kvs k = Some c \<Longrightarrow> depth c \<le> depth c' \<Longrightarrow>
   depth (Dict (AList.update k c' kvs)) = max (Suc (depth c')) (depth (Dict kvs))"
  by (induction kvs) (auto split: if_splits)

lemma depth_insert_path:
  "no_rows t \<Longrightarrow> depth (insert_path q t) = max (length q) (depth t)"
proof (induction q arbitrary: t)
  case Nil
  then show ?case by simp
next
  case (Cons k ks)
  from Cons.prems obtain kvs where t: "t = Dict kvs" by (cases t) auto
  show ?case
  proof (cases "map_of kvs k")
    case None
    have "depth (insert_path ks (Dict [])) = max (length ks) (depth (Dict []))"
      by (rule Cons.IH) simp
    with None show ?thesis unfolding t by (simp add: depth_snoc del: depth.simps(1)) simp
  next
    case (Some child)
    with Cons.prems have "no_rows child" unfolding t by (rule map_of_no_rows)
    then have d: "depth (insert_path ks child) = max (length ks) (depth child)" by (rule Cons.IH)
    then have "depth child \<le> depth (insert_path ks child)" by simp
    with Some have "depth (Dict (AList.update k (insert_path ks child) kvs)) =
        max (Suc (depth (insert_path ks child))) (depth (Dict kvs))"
      by (rule depth_update)
    with Some d depth_child [OF Some] show ?thesis unfolding t by (simp del: depth.simps(1))
  qed
qed

lemma no_rows_fold_insert_path:
  "no_rows t \<Longrightarrow> no_rows (fold insert_path ps t)"
  by (induction ps arbitrary: t) (simp_all add: no_rows_insert_path)

lemma depth_fold_insert_path:
  assumes "no_rows t" "\<forall>q \<in> set ps. length q = l"
  shows "depth (fold insert_path ps t) = (if ps = [] then depth t else max l (depth t))"
  using assms
proof (induction ps arbitrary: t)
  case Nil
  then show ?case by simp
next
  case (Cons p ps)
  from Cons.prems(1) have "no_rows (insert_path p t)" by (rule no_rows_insert_path)
  with Cons.prems(2) have "depth (fold insert_path ps (insert_path p t)) =
      (if ps = [] then depth (insert_path p t) else max l (depth (insert_path p t)))"
    by (intro Cons.IH) simp_all
  with Cons.prems show ?case by (simp add: depth_insert_path)
qed

lemma row_paths_length:
  "q \<in> set (row_paths cats) \<Longrightarrow> length q = length cats"
  by (auto simp: row_paths_def row_path_def)

text \<open>
  Claim C9, as the code has it. For every non-empty list of category dimensions of equal
  length with at least one row, \<^verbatim>\<open>categorize\<close> builds nested dictionaries whose depth is the
  number of dimensions, and the keys of the dictionary under any shorter key path are the
  values of the next dimension over the rows that start with this path, each once, in the
  order in which they are first seen. For the dimensions a, a, b and x, y, x the first-level
  keys are a, b and the keys under a are x, y.
\<close>

theorem categorize_depth_and_key_order:
  assumes "catagories self \<noteq> []"
    and "\<forall>c \<in> set (catagories self). length (series c) = n"
    and "0 < n"
  shows "\<exists>t. categorize self = Inr t \<and>
           depth t = length (catagories self) \<and>
           (\<forall>p sub. lookup_path p t = Some sub \<and> length p < length (catagories self) \<longrightarrow>
              keys sub =
                first_seen (map (\<lambda>q. q ! length p)
                  (filter (\<lambda>q. take (length p) q = p) (row_paths (catagories self)))))"
proof -
  define ps where "ps = row_paths (catagories self)"
  define t where "t = fold insert_path ps (Dict [])"
  have c: "categorize self = Inr t" unfolding t_def ps_def using assms(1,2) by (rule categorize_eq)
  have len: "\<forall>q \<in> set ps. length q = length (catagories self)"
    unfolding ps_def by (simp add: row_paths_length)
  from assms have "length (series (hd (catagories self))) = n" by simp
  with assms(3) have ne: "ps \<noteq> []" unfolding ps_def row_paths_def by simp
  have "depth t = (if ps = [] then depth (Dict []) else max (length (catagories self)) (depth (Dict [])))"
    unfolding t_def using len by (intro depth_fold_insert_path) simp_all
  with ne have d: "depth t = length (catagories self)" by simp
  have k: "keys sub = first_seen (map (\<lambda>q. q ! length p) (filter (\<lambda>q. take (length p) q = p) ps))"
    if "lookup_path p t = Some sub \<and> length p < length (catagories self)" for p sub
  proof -
    from fold_insert_path_invariant [of ps]
    have ks: "\<And>p n. lookup_path p t = Some n \<Longrightarrow> keys n = keys_under ps p"
      unfolding t_def by blast
    from that have "keys sub = keys_under ps p" by (intro ks) simp
    moreover have "filter (\<lambda>q. length p < length q \<and> take (length p) q = p) ps =
        filter (\<lambda>q. take (length p) q = p) ps"
      using len that by (intro filter_cong) auto
    ultimately show ?thesis unfolding keys_under_def by simp
  qed
  from c d k show ?thesis unfolding ps_def by blast
qed

theorem categorize_depth_and_key_order_witness:
  "categorize (example_self ab_xy) = Inr ab_xy_tree \<and>
   depth ab_xy_tree = 2 \<and>
   keys ab_xy_tree = [PyStr ''a'', PyStr ''b''] \<and>
   lookup_path [PyStr ''a''] ab_xy_tree = Some (Dict [(PyStr ''x'', Dict []), (PyStr ''y'', Dict [])]) \<and>
   keys (Dict [(PyStr ''x'', Dict []), (PyStr ''y'', Dict [])]) = [PyStr ''x'', PyStr ''y'']"
proof -
  have c: "categorize (example_self ab_xy) = Inr ab_xy_tree" by code_simp
  have h: "catagories (example_self ab_xy) \<noteq> []"
    "\<forall>c \<in> set (catagories (example_self ab_xy)). length (series c) = 3" "(0::nat) < 3"
    by (simp_all add: example_self_def ab_xy_def)
  from categorize_depth_and_key_order [OF h] c
  have d: "depth ab_xy_tree = length (catagories (example_self ab_xy))"
    and k: "\<And>p sub. lookup_path p ab_xy_tree = Some sub \<Longrightarrow>
              length p < length (catagories (example_self ab_xy)) \<Longrightarrow>
              keys sub =
                first_seen (map (\<lambda>q. q ! length p)
                  (filter (\<lambda>q. take (length p) q = p) (row_paths (catagories (example_self ab_xy)))))"
    by auto
  have l: "lookup_path [PyStr ''a''] ab_xy_tree =
      Some (Dict [(PyStr ''x'', Dict []), (PyStr ''y'', Dict [])])"
    by (simp add: ab_xy_tree_def)
  have rp: "row_paths (catagories (example_self ab_xy)) =
      [[PyStr ''a'', PyStr ''x''], [PyStr ''a'', PyStr ''y''], [PyStr ''b'', PyStr ''x'']]"
    by (simp add: example_self_def ab_xy_def row_paths_def row_path_def upt_rec)
  have n: "length (catagories (example_self ab_xy)) = 2" by (simp add: example_self_def ab_xy_def)
  from d n have "depth ab_xy_tree = 2" by simp
  moreover from k [of "[]" ab_xy_tree] n
  have "keys ab_xy_tree = [PyStr ''a'', PyStr ''b'']" by (simp add: rp)
  moreover from k [OF l] n
  have "keys (Dict [(PyStr ''x'', Dict []), (PyStr ''y'', Dict [])]) = [PyStr ''x'', PyStr ''y'']"
    by (simp add: rp)
  ultimately show ?thesis using c l by simp
qed

text \<open>
  Two category dimensions with no row: the result is the empty dictionary, of depth 0.
\<close>

theorem categorize_no_rows_depth:
  "length (catagories (example_self [\<lparr>series = [], affinity = Categorical\<rparr>,
                                       \<lparr>series = [], affinity = Categorical\<rparr>])) = 2 \<and>
   categorize (example_self [\<lparr>series = [], affinity = Categorical\<rparr>,
                              \<lparr>series = [], affinity = Categorical\<rparr>]) = Inr (Dict []) \<and>
   depth (Dict []) = 0"
  by code_simp

text \<open>
  Claim C3, as the code has it. With no category dimension \<^verbatim>\<open>categorize\<close> returns a single
  entry under the key \<^verbatim>\<open>"__all__"\<close> whose value is the series of the temporal dimension.
  For every non-empty list of category dimensions of equal length it returns nested
  dictionaries in which a key path of full length is present exactly when it is the key
  path of some row, and what it leads to is the empty dictionary.
\<close>

theorem categorize_key_paths:
  "(catagories self = [] \<longrightarrow>
      categorize self = Inr (Dict [(PyStr ''__all__'', Rows (series (temporal_dimension self)))])) \<and>
   (catagories self \<noteq> [] \<and> (\<forall>c \<in> set (catagories self). length (series c) = n) \<longrightarrow>
      (\<exists>t. categorize self = Inr t \<and>
         (\<forall>p. length p = length (catagories self) \<longrightarrow>
            lookup_path p t =
              (if p \<in> set (row_paths (catagories self)) then Some (Dict []) else None))))"
proof (intro conjI impI)
  assume "catagories self = []"
  then show "categorize self = Inr (Dict [(PyStr ''__all__'', Rows (series (temporal_dimension self)))])"
    by (simp add: categorize_def)
next
  assume a: "catagories self \<noteq> [] \<and> (\<forall>c \<in> set (catagories self). length (series c) = n)"
  define ps where "ps = row_paths (catagories self)"
  define t where "t = fold insert_path ps (Dict [])"
  from a have a1: "catagories self \<noteq> []" and a2: "\<forall>c \<in> set (catagories self). length (series c) = n"
    by simp_all
  have c: "categorize self = Inr t" unfolding t_def ps_def using a1 a2 by (rule categorize_eq)
  have len: "\<forall>q \<in> set ps. length q = length (catagories self)"
    unfolding ps_def by (simp add: row_paths_length)
  from fold_insert_path_invariant [of ps] have nr: "no_rows t"
    and none: "\<And>p. (lookup_path p t = None) = (p \<noteq> [] \<and> \<not> (\<exists>q \<in> set ps. extends q p))"
    and ks: "\<And>p n. lookup_path p t = Some n \<Longrightarrow> keys n = keys_under ps p"
    unfolding t_def by blast+
  have "lookup_path p t = (if p \<in> set ps then Some (Dict []) else None)"
    if l: "length p = length (catagories self)" for p
  proof -
    from a1 l have pne: "p \<noteq> []" by auto
    have ex: "(\<exists>q \<in> set ps. extends q p) = (p \<in> set ps)"
      unfolding extends_def using len l by auto
    show ?thesis
    proof (cases "lookup_path p t")
      case None
      with none [of p] pne ex show ?thesis by simp
    next
      case (Some sub)
      with none [of p] ex pne have "p \<in> set ps" by simp
      from Some have "keys sub = keys_under ps p" by (rule ks)
      moreover have "filter (\<lambda>q. length p < length q \<and> take (length p) q = p) ps = []"
        using len l by (auto simp: filter_empty_conv)
      ultimately have "keys sub = []" unfolding keys_under_def by simp
      moreover from nr Some have "no_rows sub" by (rule lookup_path_no_rows)
      ultimately have "sub = Dict []" by (cases sub) auto
      with Some \<open>p \<in> set ps\<close> show ?thesis by simp
    qed
  qed
  with c show "\<exists>t. categorize self = Inr t \<and>
         (\<forall>p. length p = length (catagories self) \<longrightarrow>
            lookup_path p t =
              (if p \<in> set (row_paths (catagories self)) then Some (Dict []) else None))"
    unfolding ps_def by blast
qed

theorem categorize_key_paths_witness:
  "categorize (example_self []) =
     Inr (Dict [(PyStr ''__all__'',
                 Rows [PyDatetime (jan 1), PyDatetime (jan 2), PyDatetime (jan 3)])]) \<and>
   categorize (example_self ab_xy) = Inr ab_xy_tree \<and>
   lookup_path [PyStr ''a'', PyStr ''y''] ab_xy_tree = Some (Dict []) \<and>
   lookup_path [PyStr ''b'', PyStr ''y''] ab_xy_tree = None"
proof -
  have c: "categorize (example_self ab_xy) = Inr ab_xy_tree" by code_simp
  have e: "catagories (example_self []) = []" by (simp add: example_self_def)
  have h: "catagories (example_self ab_xy) \<noteq> [] \<and>
      (\<forall>c \<in> set (catagories (example_self ab_xy)). length (series c) = 3)"
    by (simp add: example_self_def ab_xy_def)
  have rp: "row_paths (catagories (example_self ab_xy)) =
      [[PyStr ''a'', PyStr ''x''], [PyStr ''a'', PyStr ''y''], [PyStr ''b'', PyStr ''x'']]"
    by (simp add: example_self_def ab_xy_def row_paths_def row_path_def upt_rec)
  have n: "length (catagories (example_self ab_xy)) = 2" by (simp add: example_self_def ab_xy_def)
  from categorize_key_paths [of "example_self []" 0] e
  have "categorize (example_self []) =
     Inr (Dict [(PyStr ''__all__'', Rows (series (temporal_dimension (example_self []))))])"
    by blast
  then have a: "categorize (example_self []) =
     Inr (Dict [(PyStr ''__all__'',
                 Rows [PyDatetime (jan 1), PyDatetime (jan 2), PyDatetime (jan 3)])])"
    by (simp add: example_self_def three_days_def)
  from categorize_key_paths [of "example_self ab_xy" 3] h c
  have k: "\<And>p. length p = length (catagories (example_self ab_xy)) \<Longrightarrow>
      lookup_path p ab_xy_tree =
        (if p \<in> set (row_paths (catagories (example_self ab_xy))) then Some (Dict []) else None)"
    by auto
  from k [of "[PyStr ''a'', PyStr ''y'']"] n
  have "lookup_path [PyStr ''a'', PyStr ''y''] ab_xy_tree = Some (Dict [])" by (simp add: rp)
  moreover from k [of "[PyStr ''b'', PyStr ''y'']"] n
  have "lookup_path [PyStr ''b'', PyStr ''y''] ab_xy_tree = None" by (simp add: rp)
  ultimately show ?thesis using a c by simp
qed

text \<open>
  Row 0 of the dimensions a, a, b and x, y, x is the only row with the key path a, x, and the
  leaf under a, x is the empty dictionary, not the list of that position; and with no
  category dimension the entry under \<^verbatim>\<open>"__all__"\<close> holds the three dates, not the
  positions 0, 1, 2.
\<close>

theorem categorize_leaves_hold_no_positions:
  "categorize (example_self ab_xy) = Inr ab_xy_tree \<and>
   positions_sharing ab_xy [PyStr ''a'', PyStr ''x''] = [0] \<and>
   lookup_path [PyStr ''a'', PyStr ''x''] ab_xy_tree = Some (Dict []) \<and>
   Dict [] \<noteq> Rows (map (\<lambda>i. PyInt (int i)) (positions_sharing ab_xy [PyStr ''a'', PyStr ''x''])) \<and>
   categorize (example_self []) =
     Inr (Dict [(PyStr ''__all__'',
                 Rows [PyDatetime (jan 1), PyDatetime (jan 2), PyDatetime (jan 3)])]) \<and>
   Rows [PyDatetime (jan 1), PyDatetime (jan 2), PyDatetime (jan 3)] \<noteq>
     Rows [PyInt 0, PyInt 1, PyInt 2]"
  by code_simp

end
